theory Spec2Isabelle
  imports Complex_Main "HOL-Library.Word"
begin

unbundle bit_operations_syntax

section \<open>Machine integers of \<^verbatim>\<open>cache_sim.cpp\<close>\<close>

text \<open>
  \<^verbatim>\<open>using u64 = unsigned long long\<close> is a 64-bit word: its arithmetic wraps around.
  A C \<^verbatim>\<open>int\<close> is written as a HOL \<open>int\<close>; every place where the source converts
  into \<^verbatim>\<open>int\<close> goes through one of the two casts below, which keep the low 32 bits and
  read them as two's complement (what g++ does for \<^verbatim>\<open>(int)x\<close>).
\<close>

type_synonym u64 = "64 word"

definition int_of_u64 :: "u64 \<Rightarrow> int" where
  "int_of_u64 w = sint (ucast w :: 32 word)"

definition int_of_size :: "nat \<Rightarrow> int" where
  "int_of_size n = sint (word_of_nat n :: 32 word)"

text \<open>The conversion of an \<^verbatim>\<open>int\<close> operand to \<^verbatim>\<open>u64\<close> in \<^verbatim>\<open>block_size * assoc\<close>.\<close>

definition u64_of_int :: "int \<Rightarrow> u64" where
  "u64_of_int i = word_of_int i"

text \<open>
  The source calls \<^verbatim>\<open>(int)round(log2(x))\<close> twice, and libm computes it in double
  precision.

  For \<^verbatim>\<open>log2(num_sets)\<close> the argument is an \<^verbatim>\<open>int\<close>: its conversion to \<^verbatim>\<open>double\<close> is
  exact, and below \<open>2^31\<close> the logarithm of an integer stays hundreds of thousands of
  units in the last place away from every half-integer, so the computed value is the
  integer nearest to the binary logarithm. \<open>round_log2\<close> computes that integer from the
  bit length of \<open>x * x\<close> (lemma \<open>round_log2_is_nearest\<close> below shows that it is
  \<open>round (log 2 x)\<close> over the reals; no integer lies on a tie).

  For \<^verbatim>\<open>log2(block_size)\<close> the argument is a \<^verbatim>\<open>u64\<close>, and from about \<open>2^46.5\<close> upwards
  double precision decides the result next to a half-integer (at 99516432383215 the
  exact logarithm is below 46.5 and the computed one is 46.5, which rounds to 47). The
  model therefore takes the function \<open>x \<mapsto> (int)round(log2((double)x))\<close> on block
  sizes as a parameter \<open>rlog2\<close> of the constructor, about which nothing is assumed.
  \<open>log2_exact\<close> is the instance used in the sample runs: the nearest integer to the exact
  logarithm, which is what double precision returns at their block sizes.
\<close>

fun floor_log2 :: "nat \<Rightarrow> nat" where
  "floor_log2 n = (if n < 2 then 0 else Suc (floor_log2 (n div 2)))"

declare floor_log2.simps [simp del]

definition round_log2 :: "nat \<Rightarrow> int" where
  "round_log2 n = int ((floor_log2 (n * n) + 1) div 2)"

definition log2_exact :: "u64 \<Rightarrow> int" where
  "log2_exact x = round_log2 (unat x)"

section \<open>Outcomes that are not a normal return\<close>

text \<open>
  \<open>runtime_error\<close> and \<open>length_error\<close> are the C++ exceptions the constructor can
  throw (\<^verbatim>\<open>main\<close> catches both as \<^verbatim>\<open>std::exception\<close>). The other constructors mark
  operations whose behaviour C++ leaves undefined: an integer division or remainder by
  zero, a shift by a count outside \<open>0..63\<close>, \<^verbatim>\<open>sets[idx]\<close> outside the vector, and
  \<^verbatim>\<open>order.front()\<close> on an empty list.
\<close>

datatype error =
    runtime_error string
  | length_error
  | UB_divide_by_zero
  | UB_shift_count
  | UB_index_out_of_range
  | UB_front_of_empty_list

section \<open>\<^verbatim>\<open>struct FullyAssocLRU\<close>\<close>

text \<open>
  \<open>fa_order\<close> is the list \<^verbatim>\<open>order\<close> (front = oldest). \<^verbatim>\<open>pos\<close> maps every resident
  key to the list node that holds it; the model keeps its key set \<open>fa_pos\<close>, and erasing
  through the stored iterator removes that key's node from the list.
\<close>

record FullyAssocLRU =
  fa_capacity :: int
  fa_order :: "u64 list"
  fa_pos :: "u64 set"

definition FullyAssocLRU_ctor :: "int \<Rightarrow> FullyAssocLRU" where
  "FullyAssocLRU_ctor cap = \<lparr>fa_capacity = cap, fa_order = [], fa_pos = {}\<rparr>"

text \<open>
  \<^verbatim>\<open>bool access(u64 block_addr)\<close>: the returned flag and the updated structure. The
  eviction branch runs only when \<^verbatim>\<open>(int)order.size() >= capacity && capacity > 0\<close>, so
  \<^verbatim>\<open>order.front()\<close> is always read on a non-empty list there; the case \<open>[]\<close> below only
  makes the model total.
\<close>

definition FullyAssocLRU_access :: "FullyAssocLRU \<Rightarrow> u64 \<Rightarrow> bool \<times> FullyAssocLRU" where
  "FullyAssocLRU_access fa block_addr =
     (if block_addr \<in> fa_pos fa then
        (True, fa\<lparr>fa_order := remove1 block_addr (fa_order fa) @ [block_addr],
                  fa_pos := insert block_addr (fa_pos fa)\<rparr>)
      else
        let fa1 =
              (if int_of_size (length (fa_order fa)) \<ge> fa_capacity fa \<and> fa_capacity fa > 0 then
                 (case fa_order fa of
                    [] \<Rightarrow> fa
                  | ev # rest \<Rightarrow> fa\<lparr>fa_order := rest, fa_pos := fa_pos fa - {ev}\<rparr>)
               else fa)
        in (False, fa1\<lparr>fa_order := fa_order fa1 @ [block_addr],
                       fa_pos := insert block_addr (fa_pos fa1)\<rparr>))"

section \<open>\<^verbatim>\<open>struct Set\<close>\<close>

text \<open>
  One set of the simulated cache. \<open>s_pos\<close> (keys of \<^verbatim>\<open>pos\<close>) is used under LRU only,
  \<open>s_present\<close> under FIFO only, as in the source.
\<close>

record Set_t =
  s_assoc :: int
  s_isLRU :: bool
  s_order :: "u64 list"
  s_pos :: "u64 set"
  s_present :: "u64 set"

definition Set_ctor :: "int \<Rightarrow> bool \<Rightarrow> Set_t" where
  "Set_ctor a lru = \<lparr>s_assoc = a, s_isLRU = lru, s_order = [], s_pos = {}, s_present = {}\<rparr>"

definition Set_contains :: "Set_t \<Rightarrow> u64 \<Rightarrow> bool" where
  "Set_contains s tag = (if s_isLRU s then tag \<in> s_pos s else tag \<in> s_present s)"

definition Set_touch :: "Set_t \<Rightarrow> u64 \<Rightarrow> Set_t" where
  "Set_touch s tag =
     (if \<not> s_isLRU s then s
      else if tag \<notin> s_pos s then s
      else s\<lparr>s_order := remove1 tag (s_order s) @ [tag], s_pos := insert tag (s_pos s)\<rparr>)"

text \<open>
  \<^verbatim>\<open>void insert(u64 tag)\<close>. In the eviction branch the source reads \<^verbatim>\<open>order.front()\<close>
  without testing for emptiness; that is reached with an empty list when \<^verbatim>\<open>assoc <= 0\<close>.
\<close>

definition Set_insert :: "Set_t \<Rightarrow> u64 \<Rightarrow> error + Set_t" where
  "Set_insert s tag =
     (if Set_contains s tag then
        Inr (if s_isLRU s then Set_touch s tag else s)
      else if int_of_size (length (s_order s)) < s_assoc s then
        Inr (s\<lparr>s_order := s_order s @ [tag],
               s_pos := (if s_isLRU s then insert tag (s_pos s) else s_pos s),
               s_present := (if s_isLRU s then s_present s else insert tag (s_present s))\<rparr>)
      else
        (case s_order s of
           [] \<Rightarrow> Inl UB_front_of_empty_list
         | ev # rest \<Rightarrow>
             Inr (s\<lparr>s_order := rest @ [tag],
                    s_pos := (if s_isLRU s then insert tag (s_pos s - {ev}) else s_pos s),
                    s_present :=
                      (if s_isLRU s then s_present s else insert tag (s_present s - {ev}))\<rparr>)))"

section \<open>\<^verbatim>\<open>struct Cache\<close>\<close>

record Cache =
  cache_size :: u64
  block_size :: u64
  assoc :: int
  policy :: string
  num_sets :: int
  offset_bits :: int
  index_bits :: int
  tag_bits :: int
  sets :: "Set_t list"
  fa_sim :: FullyAssocLRU
  accesses :: u64
  hits :: u64
  misses :: u64
  miss_compulsory :: u64
  miss_capacity :: u64
  miss_conflict :: u64
  seen_blocks :: "u64 set"
  verbose :: bool

text \<open>
  The constructor, in the order C++ executes it; \<open>rlog2\<close> is libm's
  \<^verbatim>\<open>(int)round(log2(block_size))\<close>. The member initialiser
  \<^verbatim>\<open>fa_sim((int)(cs / bs))\<close> is evaluated before the body, hence before the body's test
  \<^verbatim>\<open>block_size == 0\<close>. \<^verbatim>\<open>sets.reserve(num_sets)\<close> converts a negative \<^verbatim>\<open>num_sets\<close> to a
  size above \<^verbatim>\<open>max_size()\<close> and throws \<^verbatim>\<open>std::length_error\<close>. \<open>tag_bits\<close> is only printed
  by \<^verbatim>\<open>summary\<close>; its subtraction is taken over the integers. Memory exhaustion is not
  modelled.
\<close>

definition Cache_ctor ::
  "(u64 \<Rightarrow> int) \<Rightarrow> u64 \<Rightarrow> u64 \<Rightarrow> int \<Rightarrow> string \<Rightarrow> int \<Rightarrow> bool \<Rightarrow> error + Cache" where
  "Cache_ctor rlog2 cs bs a pol addr_bits verb =
     (if bs = 0 then Inl UB_divide_by_zero
      else
        let fa = FullyAssocLRU_ctor (int_of_u64 (cs div bs)) in
        if bs = 0 then Inl (runtime_error ''block_size must be > 0'')
        else if bs * u64_of_int a = 0 then Inl UB_divide_by_zero
        else if cs mod (bs * u64_of_int a) \<noteq> 0 then
          Inl (runtime_error ''cache_size must be divisible by (block_size * assoc)'')
        else
          let n = int_of_u64 (cs div (bs * u64_of_int a));
              ob = rlog2 bs;
              ib = (if n > 1 then round_log2 (nat n) else 0);
              isLRU = (pol = ''LRU'' \<or> pol = ''lru'')
          in if n < 0 then Inl length_error
             else Inr \<lparr>cache_size = cs, block_size = bs, assoc = a, policy = pol,
                       num_sets = n, offset_bits = ob, index_bits = ib,
                       tag_bits = addr_bits - ib - ob,
                       sets = replicate (nat n) (Set_ctor a isLRU),
                       fa_sim = fa,
                       accesses = 0, hits = 0, misses = 0,
                       miss_compulsory = 0, miss_capacity = 0, miss_conflict = 0,
                       seen_blocks = {}, verbose = verb\<rparr>)"

text \<open>
  A shift count the language defines for a 64-bit operand. \<^verbatim>\<open>decompose\<close> shifts by
  \<^verbatim>\<open>offset_bits\<close> and by \<^verbatim>\<open>index_bits\<close>; \<^verbatim>\<open>offset_bits\<close> is 64 for the largest block
  sizes.
\<close>

definition shift_ok :: "int \<Rightarrow> bool" where
  "shift_ok n = (0 \<le> n \<and> n < 64)"

text \<open>\<^verbatim>\<open>u64 block_addr = addr >> offset_bits\<close>, the block id (first line of both
  \<^verbatim>\<open>decompose\<close> and \<^verbatim>\<open>access\<close>).\<close>

definition block_addr_of :: "Cache \<Rightarrow> u64 \<Rightarrow> u64" where
  "block_addr_of c addr = drop_bit (nat (offset_bits c)) addr"

definition decompose :: "Cache \<Rightarrow> u64 \<Rightarrow> error + (u64 \<times> int)" where
  "decompose c addr =
     (if shift_ok (offset_bits c) \<and> shift_ok (index_bits c) then
        let block_addr = block_addr_of c addr;
            index = (if num_sets c > 1
                     then int_of_u64 (block_addr AND (push_bit (nat (index_bits c)) 1 - 1))
                     else 0);
            tag = drop_bit (nat (index_bits c)) block_addr
        in Inr (tag, index)
      else Inl UB_shift_count)"

text \<open>
  \<^verbatim>\<open>pair<bool, string> access(u64 addr)\<close>: the updated simulator and the returned pair.
  The \<^verbatim>\<open>printf\<close> calls under \<^verbatim>\<open>verbose\<close> change no state and are left out.
\<close>

definition access :: "Cache \<Rightarrow> u64 \<Rightarrow> error + (Cache \<times> bool \<times> string)" where
  "access c addr =
     (case decompose c addr of
        Inl e \<Rightarrow> Inl e
      | Inr (tag, idx) \<Rightarrow>
          let block_addr = block_addr_of c addr;
              first_time = (block_addr \<notin> seen_blocks c);
              c1 = c\<lparr>accesses := accesses c + 1,
                     seen_blocks := insert block_addr (seen_blocks c)\<rparr>
          in if idx < 0 \<or> int (length (sets c)) \<le> idx then Inl UB_index_out_of_range
             else
               let s = sets c ! nat idx in
               if Set_contains s tag then
                 let s1 = (if policy c = ''LRU'' \<or> policy c = ''lru'' then Set_touch s tag else s);
                     (fa_hit, fa1) = FullyAssocLRU_access (fa_sim c) block_addr
                 in Inr (c1\<lparr>hits := hits c + 1,
                             sets := (sets c)[nat idx := s1],
                             fa_sim := fa1\<rparr>, True, ''HIT'')
               else
                 let (fa_hit, fa1) = FullyAssocLRU_access (fa_sim c) block_addr;
                     c2 = c1\<lparr>misses := misses c + 1, fa_sim := fa1\<rparr>
                 in (case Set_insert s tag of
                       Inl e \<Rightarrow> Inl e
                     | Inr s1 \<Rightarrow>
                         if first_time then
                           Inr (c2\<lparr>miss_compulsory := miss_compulsory c + 1,
                                    sets := (sets c)[nat idx := s1]\<rparr>,
                                False, ''MISS-Compulsory'')
                         else if fa_hit then
                           Inr (c2\<lparr>miss_conflict := miss_conflict c + 1,
                                    sets := (sets c)[nat idx := s1]\<rparr>,
                                False, ''MISS-Conflict'')
                         else
                           Inr (c2\<lparr>miss_capacity := miss_capacity c + 1,
                                    sets := (sets c)[nat idx := s1]\<rparr>,
                                False, ''MISS-Capacity'')))"

text \<open>
  The loop of \<^verbatim>\<open>main\<close> over the parsed addresses of the trace: \<^verbatim>\<open>sim.access(addr)\<close> for
  each in order. The model also collects the returned pairs (the verbose log).
\<close>

fun replay :: "Cache \<Rightarrow> u64 list \<Rightarrow> error + (Cache \<times> (bool \<times> string) list)" where
  "replay c [] = Inr (c, [])"
| "replay c (addr # rest) =
     (case access c addr of
        Inl e \<Rightarrow> Inl e
      | Inr (c1, r) \<Rightarrow>
          (case replay c1 rest of
             Inl e \<Rightarrow> Inl e
           | Inr (c2, rs) \<Rightarrow> Inr (c2, r # rs)))"

section \<open>Invariants of a running simulator\<close>

text \<open>
  Predicates used in the proofs below; they are not part of the program.
  \<open>geometry_ok\<close>: the index width the constructor derives. \<open>resident_seen\<close>: every tag
  resident in set \<open>i\<close> is the tag of an address whose block has been referenced.
\<close>

definition geometry_ok :: "Cache \<Rightarrow> bool" where
  "geometry_ok c \<longleftrightarrow>
     0 \<le> index_bits c \<and> index_bits c \<le> 31 \<and> (num_sets c \<le> 1 \<longrightarrow> index_bits c = 0)"

definition resident_seen :: "Cache \<Rightarrow> bool" where
  "resident_seen c \<longleftrightarrow>
     (\<forall>i < length (sets c). \<forall>t. Set_contains (sets c ! i) t \<longrightarrow>
        (\<exists>addr. block_addr_of c addr \<in> seen_blocks c \<and> decompose c addr = Inr (t, int i)))"

section \<open>Sample runs\<close>

text \<open>
  The geometry of the end-to-end scenario: \<^verbatim>\<open>./cache_sim trace 128 64 1 LRU 32\<close>, two
  direct-mapped sets. \<open>two_sets_after xs\<close> is the simulator after the trace \<open>xs\<close>.
\<close>

abbreviation two_sets :: Cache where
  "two_sets \<equiv> projr (Cache_ctor log2_exact 128 64 1 ''LRU'' 32 False)"

abbreviation two_sets_after :: "u64 list \<Rightarrow> Cache" where
  "two_sets_after xs \<equiv> fst (projr (replay two_sets xs))"

section \<open>References to one set\<close>

text \<open>
  What \<^verbatim>\<open>Cache::access\<close> does to \<^verbatim>\<open>sets[idx]\<close> for one reference to \<open>tag\<close>:
  \<^verbatim>\<open>touch\<close> on a hit (\<^verbatim>\<open>Set::touch\<close> returns at once under FIFO, so the caller's test of
  the policy string changes nothing), \<^verbatim>\<open>insert\<close> on a miss. \<open>Set_reference_all\<close> applies
  a sequence of references in order.
\<close>

definition Set_reference :: "Set_t \<Rightarrow> u64 \<Rightarrow> error + Set_t" where
  "Set_reference s tag =
     (if Set_contains s tag then Inr (Set_touch s tag) else Set_insert s tag)"

fun Set_reference_all :: "Set_t \<Rightarrow> u64 list \<Rightarrow> error + Set_t" where
  "Set_reference_all s [] = Inr s"
| "Set_reference_all s (tag # rest) =
     (case Set_reference s tag of
        Inl e \<Rightarrow> Inl e
      | Inr s1 \<Rightarrow> Set_reference_all s1 rest)"

section \<open>A single LRU set against the reference cache\<close>

text \<open>
  Predicates used in the proofs below; they are not part of the program. \<open>set_mirrors\<close>:
  an LRU set and the reference cache hold the same lines in the same order and have the
  same positive capacity. \<open>mirrors_oracle\<close>: the simulator has one such set and has
  counted no conflict miss.
\<close>

definition set_mirrors :: "Set_t \<Rightarrow> FullyAssocLRU \<Rightarrow> bool" where
  "set_mirrors s fa \<longleftrightarrow>
     s_isLRU s \<and> s_order s = fa_order fa \<and> s_pos s = fa_pos fa \<and>
     s_assoc s = fa_capacity fa \<and> 0 < fa_capacity fa"

definition mirrors_oracle :: "Cache \<Rightarrow> bool" where
  "mirrors_oracle c \<longleftrightarrow>
     (policy c = ''LRU'' \<or> policy c = ''lru'') \<and> num_sets c = 1 \<and> index_bits c = 0 \<and>
     length (sets c) = 1 \<and> set_mirrors (sets c ! 0) (fa_sim c) \<and> miss_conflict c = 0"

text \<open>Two further sample geometries: one 2-way set, under LRU and under FIFO.\<close>

abbreviation one_set_lru :: Cache where
  "one_set_lru \<equiv> projr (Cache_ctor log2_exact 128 64 2 ''LRU'' 32 False)"

abbreviation one_set_fifo :: Cache where
  "one_set_fifo \<equiv> projr (Cache_ctor log2_exact 128 64 2 ''FIFO'' 32 False)"

section \<open>Geometries on which every access returns\<close>

text \<open>
  A predicate used in the proofs below; it is not part of the program. The simulator has
  \<open>2^k\<close> sets, each with an associativity of at least 1, the index width \<open>k\<close>, and shift
  counts that C++ defines.
\<close>

definition runs_safely :: "Cache \<Rightarrow> nat \<Rightarrow> bool" where
  "runs_safely c k \<longleftrightarrow>
     num_sets c = 2 ^ k \<and> index_bits c = int k \<and> k \<le> 31 \<and> shift_ok (offset_bits c) \<and>
     length (sets c) = 2 ^ k \<and> (\<forall>s \<in> set (sets c). 1 \<le> s_assoc s)"

section \<open>The reference cache as the specification describes it\<close>

text \<open>
  A second description of the reference cache, independent of the code: a
  fully-associative LRU cache of capacity \<open>n\<close> that has seen the references \<open>blocks\<close> holds
  the \<open>n\<close> most recently referenced distinct blocks, least recently used first.
  \<open>remdups\<close> keeps the last occurrence of every block, in trace order.
\<close>

definition spec_lru_contents :: "nat \<Rightarrow> 'a list \<Rightarrow> 'a list" where
  "spec_lru_contents n blocks = drop (length (remdups blocks) - n) (remdups blocks)"

text \<open>
  The contents the code's capacity test \<^verbatim>\<open>capacity > 0\<close> leads to: an LRU window of
  \<^verbatim>\<open>capacity\<close> blocks when the \<^verbatim>\<open>int\<close> is positive, and every block ever referenced
  otherwise (nothing is evicted). \<open>oracle_tracks\<close> is the invariant used in the proofs.
\<close>

definition oracle_contents :: "int \<Rightarrow> u64 list \<Rightarrow> u64 list" where
  "oracle_contents cap blocks =
     (if 0 < cap then spec_lru_contents (nat cap) blocks else remdups blocks)"

definition oracle_tracks :: "FullyAssocLRU \<Rightarrow> u64 list \<Rightarrow> bool" where
  "oracle_tracks fa blocks \<longleftrightarrow>
     fa_order fa = oracle_contents (fa_capacity fa) blocks \<and> fa_pos fa = set (fa_order fa) \<and>
     fa_capacity fa < 2 ^ 31"

text \<open>
  A geometry whose quotient \<^verbatim>\<open>cache_size / block_size\<close> does not fit an \<^verbatim>\<open>int\<close>:
  \<^verbatim>\<open>4294967298 1 1\<close>, and one whose block size makes \<^verbatim>\<open>offset_bits\<close> 64.
\<close>

abbreviation wide_quotient :: Cache where
  "wide_quotient \<equiv> projr (Cache_ctor log2_exact 4294967298 1 1 ''LRU'' 32 False)"


section \<open>Auxiliary facts\<close>

subsection \<open>Logarithms and casts\<close>

lemma floor_log2_power: "floor_log2 (2 ^ m) = m"
proof (induction m)
  case 0
  show ?case by (simp add: floor_log2.simps)
next
  case (Suc m)
  have "floor_log2 (2 ^ Suc m) = Suc (floor_log2 (2 ^ Suc m div 2))"
    by (subst floor_log2.simps) simp
  with Suc show ?case by simp
qed

lemma round_log2_power: "round_log2 (2 ^ k) = int k"
proof -
  have "(2::nat) ^ k * 2 ^ k = 2 ^ (2 * k)"
    by (simp add: power_add mult_2)
  then show ?thesis
    by (simp add: round_log2_def floor_log2_power)
qed

lemma floor_log2_bounds:
  "0 < n \<Longrightarrow> 2 ^ floor_log2 n \<le> n \<and> n < 2 ^ Suc (floor_log2 n)"
proof (induction n rule: floor_log2.induct)
  case (1 n)
  show ?case
  proof (cases "n < 2")
    case True
    with "1.prems" show ?thesis by (simp add: floor_log2.simps)
  next
    case False
    then have "0 < n div 2" by simp
    with "1.IH" False have "2 ^ floor_log2 (n div 2) \<le> n div 2"
      "n div 2 < 2 ^ Suc (floor_log2 (n div 2))" by simp_all
    then have "2 * 2 ^ floor_log2 (n div 2) \<le> n" "n < 2 * 2 ^ Suc (floor_log2 (n div 2))"
      by simp_all
    with False show ?thesis by (subst (1 2) floor_log2.simps) simp
  qed
qed

lemma round_log2_is_nearest:
  assumes "0 < n"
  shows "round (log 2 (real n)) = round_log2 n"
proof -
  define m where "m = floor_log2 (n * n)"
  define x where "x = log 2 (real n)"
  from assms have "0 < n * n" by simp
  from floor_log2_bounds [OF this]
  have lo: "2 ^ m \<le> n * n" and hi: "n * n < 2 ^ Suc m" by (simp_all add: m_def)
  have sq: "log 2 (real (n * n)) = 2 * x"
    using assms by (simp add: x_def log_mult)
  from lo have "real m \<le> log 2 (real (n * n))"
    by (intro le_log2_of_power) simp
  then have 1: "real m \<le> 2 * x" by (simp only: sq)
  from hi \<open>0 < n * n\<close> have "log 2 (real (n * n)) < real (Suc m)"
    by (intro log2_of_power_less) simp_all
  then have "2 * x < real (Suc m)" by (simp only: sq)
  then have 2: "2 * x < real m + 1" by simp
  have "\<lfloor>x + 1 / 2\<rfloor> = int ((m + 1) div 2)"
  proof (rule floor_unique)
    show "of_int (int ((m + 1) div 2)) \<le> x + 1 / 2"
    proof -
      have "real ((m + 1) div 2) * 2 \<le> real (m + 1)"
        by (metis div_times_less_eq_dividend of_nat_le_iff of_nat_mult of_nat_numeral)
      with 1 show ?thesis by simp
    qed
    show "x + 1 / 2 < of_int (int ((m + 1) div 2)) + 1"
    proof -
      have "m + 1 < ((m + 1) div 2) * 2 + 2"
        by presburger
      then have "real (m + 1) < real (((m + 1) div 2) * 2 + 2)"
        by (simp only: of_nat_less_iff)
      with 2 show ?thesis by simp
    qed
  qed
  then show ?thesis
    by (simp add: round_def round_log2_def m_def x_def)
qed

lemma round_log2_nonneg: "0 \<le> round_log2 n"
  by (simp add: round_log2_def)

lemma int_of_u64_range: "- (2 ^ 31) \<le> int_of_u64 w \<and> int_of_u64 w < 2 ^ 31"
  unfolding int_of_u64_def
  using sint_range_size [of "ucast w :: 32 word"] by (simp add: word_size)

lemma floor_log2_less: "n < 2 ^ Suc m \<Longrightarrow> floor_log2 n \<le> m"
proof (induction m arbitrary: n)
  case 0
  then show ?case by (simp add: floor_log2.simps)
next
  case (Suc m)
  show ?case
  proof (cases "n < 2")
    case True
    then show ?thesis by (simp add: floor_log2.simps)
  next
    case False
    from Suc.prems have "n div 2 < 2 ^ Suc m" by simp
    then have "floor_log2 (n div 2) \<le> m" by (rule Suc.IH)
    with False show ?thesis by (subst floor_log2.simps) simp
  qed
qed

lemma round_log2_bound:
  assumes "n < 2 ^ m"
  shows "round_log2 n \<le> int m"
proof (cases m)
  case 0
  with assms have "n = 0" by simp
  then show ?thesis by (simp add: round_log2_def floor_log2.simps)
next
  case (Suc j)
  have "n * n < 2 ^ m * 2 ^ m"
    using assms by (simp add: mult_strict_mono')
  also have "(2::nat) ^ m * 2 ^ m = 2 ^ Suc (2 * j + 1)"
    unfolding Suc power_add [symmetric] by simp
  finally have "floor_log2 (n * n) \<le> 2 * j + 1" by (rule floor_log2_less)
  then show ?thesis by (simp add: round_log2_def Suc) 
qed

lemma int_of_u64_small:
  assumes "unat w < 2 ^ 31"
  shows "int_of_u64 w = int (unat w)"
proof -
  have "int (unat w) < int (2 ^ 31)"
    using assms by (simp only: of_nat_less_iff)
  then have lt: "uint w < 2 ^ 31"
    by simp
  have "uint (ucast w :: 32 word) = take_bit 32 (uint w)"
    by (simp add: unsigned_ucast_eq)
  also have "\<dots> = uint w"
    using lt by (simp add: take_bit_int_eq_self)
  finally have "sint (ucast w :: 32 word) = signed_take_bit 31 (uint w)"
    by (simp add: sint_uint)
  also have "\<dots> = uint w"
  proof (rule signed_take_bit_int_eq_self)
    have "(0::int) \<le> uint w" by simp
    moreover have "(0::int) \<le> 2 ^ 31" by (rule zero_le_power) simp
    ultimately show "- (2 ^ 31) \<le> uint w" by linarith
    show "uint w < 2 ^ 31" by (rule lt)
  qed
  finally show ?thesis
    by (simp add: int_of_u64_def)
qed

lemma int_of_size_small:
  assumes "n < 2 ^ 31"
  shows "int_of_size n = int n"
proof -
  have "sint (word_of_nat n :: 32 word) = signed_take_bit 31 (int n)"
    using sint_sbintrunc' [where 'a = 32, of "int n"] by simp
  also have "\<dots> = int n"
  proof (rule signed_take_bit_int_eq_self)
    have "(0::int) \<le> 2 ^ 31" by (rule zero_le_power) simp
    then show "- (2 ^ 31) \<le> int n" by linarith
    have "int n < int (2 ^ 31)"
      using assms by (simp only: of_nat_less_iff)
    then show "int n < 2 ^ 31" by simp
  qed
  finally show ?thesis
    by (simp add: int_of_size_def)
qed

lemma int_of_u64_take_bit:
  fixes b :: u64
  assumes "n \<le> 31"
  shows "int_of_u64 (b AND (push_bit n 1 - 1)) = int (unat b mod 2 ^ n)"
proof -
  have eq: "b AND (push_bit n 1 - 1) = take_bit n b"
    by (simp add: take_bit_eq_mask mask_eq_decr_exp)
  have "unat (take_bit n b) = take_bit n (unat b)"
    by (rule unsigned_take_bit_eq)
  also have "\<dots> = unat b mod 2 ^ n"
    by (rule take_bit_eq_mod)
  finally have u: "unat (take_bit n b) = unat b mod 2 ^ n" .
  have "unat b mod 2 ^ n < (2::nat) ^ n" by simp
  also have "(2::nat) ^ n \<le> 2 ^ 31"
    using assms by (intro power_increasing) simp_all
  finally have "unat (take_bit n b) < 2 ^ 31" using u by simp
  then have "int_of_u64 (take_bit n b) = int (unat (take_bit n b))"
    by (rule int_of_u64_small)
  then show ?thesis
    by (simp only: eq u)
qed

subsection \<open>One access\<close>

lemma access_geometry:
  assumes "access c addr = Inr (c', r)"
  shows "offset_bits c' = offset_bits c" "index_bits c' = index_bits c"
    "num_sets c' = num_sets c" "policy c' = policy c"
    "length (sets c') = length (sets c)"
  using assms
  by (auto simp: access_def Let_def split: sum.splits prod.splits if_splits)

lemma access_seen_blocks:
  assumes "access c addr = Inr (c', r)"
  shows "seen_blocks c' = insert (block_addr_of c addr) (seen_blocks c)"
  using assms
  by (auto simp: access_def Let_def split: sum.splits prod.splits if_splits)

lemma access_fa_sim:
  assumes "access c addr = Inr (c', r)"
  shows "fa_sim c' = snd (FullyAssocLRU_access (fa_sim c) (block_addr_of c addr))"
  using assms
  by (auto simp: access_def Let_def split: sum.splits prod.splits if_splits)

lemma access_counters:
  assumes "access c addr = Inr (c', r)"
    and "hits c + misses c = accesses c"
    and "miss_compulsory c + miss_conflict c + miss_capacity c = misses c"
  shows "hits c' + misses c' = accesses c' \<and>
         miss_compulsory c' + miss_conflict c' + miss_capacity c' = misses c'"
  using assms
  by (auto simp: access_def Let_def ac_simps split: sum.splits prod.splits if_splits)

lemma access_miss_class:
  assumes "access c addr = Inr (c', hit, cls)" and "\<not> hit"
    and "block_addr_of c addr \<in> seen_blocks c"
  shows "(cls = ''MISS-Conflict'' \<longleftrightarrow>
            fst (FullyAssocLRU_access (fa_sim c) (block_addr_of c addr))) \<and>
         (cls = ''MISS-Capacity'' \<longleftrightarrow>
            \<not> fst (FullyAssocLRU_access (fa_sim c) (block_addr_of c addr)))"
  using assms
  by (auto simp: access_def Let_def split: sum.splits prod.splits if_splits)

subsection \<open>Construction and replay\<close>

lemma Cache_ctor_Inr:
  assumes "Cache_ctor rlog2 cs bs a pol ab vb = Inr c"
  shows "bs \<noteq> 0" "bs * u64_of_int a \<noteq> 0" "cs mod (bs * u64_of_int a) = 0"
    "num_sets c = int_of_u64 (cs div (bs * u64_of_int a))" "0 \<le> num_sets c"
    "offset_bits c = rlog2 bs"
    "index_bits c = (if num_sets c > 1 then round_log2 (nat (num_sets c)) else 0)"
    "sets c = replicate (nat (num_sets c)) (Set_ctor a (pol = ''LRU'' \<or> pol = ''lru''))"
    "fa_sim c = FullyAssocLRU_ctor (int_of_u64 (cs div bs))"
    "policy c = pol" "assoc c = a" "seen_blocks c = {}"
    "accesses c = 0" "hits c = 0" "misses c = 0"
    "miss_compulsory c = 0" "miss_conflict c = 0" "miss_capacity c = 0"
  using assms
  by (auto simp: Cache_ctor_def Let_def split: if_splits)

lemma replay_geometry:
  assumes "replay c addrs = Inr (c', rs)"
  shows "offset_bits c' = offset_bits c \<and> index_bits c' = index_bits c \<and>
         num_sets c' = num_sets c \<and> policy c' = policy c \<and>
         length (sets c') = length (sets c)"
  using assms
proof (induction addrs arbitrary: c rs)
  case Nil
  then show ?case by simp
next
  case (Cons x xs)
  from Cons.prems obtain c1 r rs1 where
    a: "access c x = Inr (c1, r)" and b: "replay c1 xs = Inr (c', rs1)"
    by (auto split: sum.splits prod.splits)
  from Cons.IH [OF b] access_geometry [OF a] show ?case by simp
qed

lemma block_addr_of_cong:
  "offset_bits c' = offset_bits c \<Longrightarrow> block_addr_of c' = block_addr_of c"
  by (rule ext) (simp add: block_addr_of_def)

lemma replay_seen_blocks:
  assumes "replay c addrs = Inr (c', rs)"
  shows "seen_blocks c' = seen_blocks c \<union> block_addr_of c ` set addrs"
  using assms
proof (induction addrs arbitrary: c rs)
  case Nil
  then show ?case by simp
next
  case (Cons x xs)
  from Cons.prems obtain c1 r rs1 where
    a: "access c x = Inr (c1, r)" and b: "replay c1 xs = Inr (c', rs1)"
    by (auto split: sum.splits prod.splits)
  have "block_addr_of c1 = block_addr_of c"
    using access_geometry(1) [OF a] by (rule block_addr_of_cong)
  with Cons.IH [OF b] access_seen_blocks [OF a] show ?case by auto
qed

lemma replay_counters:
  assumes "replay c addrs = Inr (c', rs)"
    and "hits c + misses c = accesses c \<and>
         miss_compulsory c + miss_conflict c + miss_capacity c = misses c"
  shows "hits c' + misses c' = accesses c' \<and>
         miss_compulsory c' + miss_conflict c' + miss_capacity c' = misses c'"
  using assms
proof (induction addrs arbitrary: c rs)
  case Nil
  then show ?case by simp
next
  case (Cons x xs)
  from Cons.prems(1) obtain c1 r rs1 where
    a: "access c x = Inr (c1, r)" and b: "replay c1 xs = Inr (c', rs1)"
    by (auto split: sum.splits prod.splits)
  from Cons.prems(2) have "hits c1 + misses c1 = accesses c1 \<and>
      miss_compulsory c1 + miss_conflict c1 + miss_capacity c1 = misses c1"
    using access_counters [OF a] by blast
  with Cons.IH [OF b] show ?case .
qed

lemma replay_fa_sim:
  assumes "replay c addrs = Inr (c', rs)"
  shows "fa_sim c' =
         foldl (\<lambda>fa addr. snd (FullyAssocLRU_access fa (block_addr_of c addr))) (fa_sim c) addrs"
  using assms
proof (induction addrs arbitrary: c rs)
  case Nil
  then show ?case by simp
next
  case (Cons x xs)
  from Cons.prems obtain c1 r rs1 where
    a: "access c x = Inr (c1, r)" and b: "replay c1 xs = Inr (c', rs1)"
    by (auto split: sum.splits prod.splits)
  have "block_addr_of c1 = block_addr_of c"
    using access_geometry(1) [OF a] by (rule block_addr_of_cong)
  with Cons.IH [OF b] access_fa_sim [OF a] show ?case by simp
qed

subsection \<open>Resident lines have been referenced\<close>

lemma Set_touch_contains: "Set_contains (Set_touch s t) x = Set_contains s x"
  by (auto simp: Set_touch_def Set_contains_def)

lemma Set_insert_contains:
  assumes "Set_insert s t = Inr s'" and "Set_contains s' x"
  shows "Set_contains s x \<or> x = t"
  using assms
  by (auto simp: Set_insert_def Set_contains_def Set_touch_def split: if_splits list.splits)

lemma decompose_cong:
  assumes "offset_bits c' = offset_bits c" "index_bits c' = index_bits c"
    "num_sets c' = num_sets c"
  shows "decompose c' addr = decompose c addr"
  using assms by (simp add: decompose_def block_addr_of_def)

lemma decompose_inj:
  assumes g: "geometry_ok c"
    and 1: "decompose c a = Inr (t, i)" and 2: "decompose c a' = Inr (t, i)"
  shows "block_addr_of c a = block_addr_of c a'"
proof (cases "num_sets c > 1")
  case True
  define n where "n = nat (index_bits c)"
  have n: "n \<le> 31" using g unfolding geometry_ok_def n_def by arith
  from 1 2 True have d: "drop_bit n (block_addr_of c a) = drop_bit n (block_addr_of c a')"
    and m: "int_of_u64 (block_addr_of c a AND (push_bit n 1 - 1)) =
            int_of_u64 (block_addr_of c a' AND (push_bit n 1 - 1))"
    by (auto simp: decompose_def Let_def n_def split: if_splits)
  from m have "unat (block_addr_of c a) mod 2 ^ n = unat (block_addr_of c a') mod 2 ^ n"
    by (simp only: int_of_u64_take_bit [OF n] of_nat_eq_iff)
  then have "take_bit n (unat (block_addr_of c a)) = take_bit n (unat (block_addr_of c a'))"
    by (simp only: take_bit_eq_mod)
  then have "unat (take_bit n (block_addr_of c a)) = unat (take_bit n (block_addr_of c a'))"
    by (simp only: unsigned_take_bit_eq)
  then have "take_bit n (block_addr_of c a) = take_bit n (block_addr_of c a')"
    by (simp only: word_unat_eq_iff)
  with d show ?thesis by (metis bits_ident)
next
  case False
  with g have "index_bits c = 0" by (simp add: geometry_ok_def)
  with 1 2 show ?thesis
    by (auto simp: decompose_def Let_def split: if_splits)
qed

lemma access_step:
  assumes "access c addr = Inr (c', hit, cls)"
  obtains tag idx s1 where
    "decompose c addr = Inr (tag, idx)" "0 \<le> idx" "nat idx < length (sets c)"
    "sets c' = (sets c)[nat idx := s1]"
    "\<And>x. Set_contains s1 x \<Longrightarrow> Set_contains (sets c ! nat idx) x \<or> x = tag"
    "hit \<longleftrightarrow> Set_contains (sets c ! nat idx) tag"
    "\<not> hit \<Longrightarrow> block_addr_of c addr \<notin> seen_blocks c \<Longrightarrow> cls = ''MISS-Compulsory''"
proof -
  from assms obtain tag idx where d: "decompose c addr = Inr (tag, idx)"
    by (auto simp: access_def split: sum.splits)
  from assms d have r: "0 \<le> idx" "nat idx < length (sets c)"
    by (auto simp: access_def Let_def split: if_splits)
  show thesis
  proof (cases "Set_contains (sets c ! nat idx) tag")
    case True
    with assms d r have "hit" 
      "sets c' = (sets c)[nat idx := (if policy c = ''LRU'' \<or> policy c = ''lru''
           then Set_touch (sets c ! nat idx) tag else sets c ! nat idx)]"
      by (auto simp: access_def Let_def split: if_splits prod.splits)
    with d r True show ?thesis
      by (intro that [of tag idx]) (auto simp: Set_touch_contains split: if_splits)
  next
    case False
    with assms d r obtain s1 where s1: "Set_insert (sets c ! nat idx) tag = Inr s1"
      and c': "sets c' = (sets c)[nat idx := s1]" and h: "\<not> hit"
      and cl: "block_addr_of c addr \<notin> seen_blocks c \<Longrightarrow> cls = ''MISS-Compulsory''"
      by (auto simp: access_def Let_def split: if_splits prod.splits sum.splits)
    show ?thesis
      using d r c' h cl False Set_insert_contains [OF s1]
      by (intro that [of tag idx s1]) auto
  qed
qed

lemma access_geometry_ok:
  assumes "access c addr = Inr (c', r)" "geometry_ok c"
  shows "geometry_ok c'"
  using access_geometry [OF assms(1)] assms(2) by (simp add: geometry_ok_def)

lemma access_resident_seen:
  assumes a: "access c addr = Inr (c', r)" and inv: "resident_seen c"
  shows "resident_seen c'"
proof -
  obtain hit cls where r: "r = (hit, cls)" by (cases r)
  from a r have a': "access c addr = Inr (c', hit, cls)" by simp
  note geo = access_geometry [OF a]
  have dc: "decompose c' = decompose c"
    by (rule ext) (rule decompose_cong [OF geo(1,2,3)])
  have bc: "block_addr_of c' = block_addr_of c"
    by (rule block_addr_of_cong [OF geo(1)])
  have seen: "seen_blocks c' = insert (block_addr_of c addr) (seen_blocks c)"
    by (rule access_seen_blocks [OF a])
  from a' show ?thesis
  proof (rule access_step)
    fix tag idx s1
    assume d: "decompose c addr = Inr (tag, idx)" and i0: "0 \<le> idx"
      and il: "nat idx < length (sets c)"
      and s: "sets c' = (sets c)[nat idx := s1]"
      and sub: "\<And>x. Set_contains s1 x \<Longrightarrow> Set_contains (sets c ! nat idx) x \<or> x = tag"
    show "resident_seen c'"
      unfolding resident_seen_def dc bc seen
    proof (intro allI impI)
      fix i t
      assume i: "i < length (sets c')" and t: "Set_contains (sets c' ! i) t"
      show "\<exists>addr'. block_addr_of c addr' \<in> insert (block_addr_of c addr) (seen_blocks c) \<and>
                decompose c addr' = Inr (t, int i)"
      proof (cases "i = nat idx \<and> t = tag")
        case True
        with d i0 show ?thesis by (intro exI [of _ addr]) simp
      next
        case False
        have "Set_contains (sets c ! i) t"
        proof (cases "i = nat idx")
          case True
          with t s il have "Set_contains s1 t" by simp
          from sub [OF this] True False show ?thesis by simp
        next
          case False
          with t s show ?thesis by simp
        qed
        moreover have "i < length (sets c)" using i s by simp
        ultimately obtain addr' where "block_addr_of c addr' \<in> seen_blocks c"
          "decompose c addr' = Inr (t, int i)"
          using inv unfolding resident_seen_def by blast
        then show ?thesis by (intro exI [of _ addr']) simp
      qed
    qed
  qed
qed

lemma replay_invariants:
  assumes "replay c addrs = Inr (c', rs)" "geometry_ok c" "resident_seen c"
  shows "geometry_ok c' \<and> resident_seen c'"
  using assms
proof (induction addrs arbitrary: c rs)
  case Nil
  then show ?case by simp
next
  case (Cons x xs)
  from Cons.prems(1) obtain c1 r rs1 where
    a: "access c x = Inr (c1, r)" and b: "replay c1 xs = Inr (c', rs1)"
    by (auto split: sum.splits prod.splits)
  show ?case
    using Cons.IH [OF b access_geometry_ok [OF a Cons.prems(2)]
        access_resident_seen [OF a Cons.prems(3)]] .
qed

lemma Cache_ctor_geometry_ok:
  assumes "Cache_ctor rlog2 cs bs a pol ab vb = Inr c"
  shows "geometry_ok c"
proof -
  note f = Cache_ctor_Inr [OF assms]
  have "num_sets c < 2 ^ 31"
    using int_of_u64_range [of "cs div (bs * u64_of_int a)"] f(4) by simp
  then have "nat (num_sets c) < 2 ^ 31"
    by (simp add: nat_less_iff)
  then have "round_log2 (nat (num_sets c)) \<le> int 31"
    by (rule round_log2_bound)
  then show ?thesis
    using f(7) round_log2_nonneg [of "nat (num_sets c)"] by (simp add: geometry_ok_def)
qed

lemma Cache_ctor_resident_seen:
  assumes "Cache_ctor rlog2 cs bs a pol ab vb = Inr c"
  shows "resident_seen c"
  using Cache_ctor_Inr(8) [OF assms]
  by (simp add: resident_seen_def Set_contains_def Set_ctor_def)

lemma FullyAssocLRU_access_capacity:
  "fa_capacity (snd (FullyAssocLRU_access fa b)) = fa_capacity fa"
  by (simp add: FullyAssocLRU_access_def Let_def split: list.splits)

lemma replay_fa_capacity:
  assumes "replay c addrs = Inr (c', rs)"
  shows "fa_capacity (fa_sim c') = fa_capacity (fa_sim c)"
  using assms
proof (induction addrs arbitrary: c rs)
  case Nil
  then show ?case by simp
next
  case (Cons x xs)
  from Cons.prems obtain c1 r rs1 where
    a: "access c x = Inr (c1, r)" and b: "replay c1 xs = Inr (c', rs1)"
    by (auto split: sum.splits prod.splits)
  from Cons.IH [OF b] access_fa_sim [OF a] show ?case
    by (simp add: FullyAssocLRU_access_capacity)
qed

subsection \<open>Evaluation of concrete runs\<close>

lemmas eval_defs =
  Cache_ctor_def log2_exact_def Let_def u64_of_int_def int_of_u64_def int_of_size_def round_log2_def
  floor_log2.simps FullyAssocLRU_ctor_def Set_ctor_def access_def decompose_def
  block_addr_of_def shift_ok_def Set_contains_def Set_touch_def Set_insert_def
  FullyAssocLRU_access_def

lemma two_sets_constructed: "Cache_ctor log2_exact 128 64 1 ''LRU'' 32 False = Inr two_sets"
  by (simp add: eval_defs)

subsection \<open>The two paths of an access\<close>

lemma access_classes:
  assumes "access c addr = Inr (c', r)"
  shows "r \<in> {(True, ''HIT''), (False, ''MISS-Compulsory''), (False, ''MISS-Conflict''),
              (False, ''MISS-Capacity'')}"
  using assms
  by (auto simp: access_def Let_def split: sum.splits prod.splits if_splits)

lemma access_cases:
  assumes "access c addr = Inr (c', hit, cls)"
  obtains (hit) tag idx where
      "decompose c addr = Inr (tag, idx)" "0 \<le> idx" "nat idx < length (sets c)"
      "Set_contains (sets c ! nat idx) tag" "hit" "cls = ''HIT''"
      "sets c' = (sets c)[nat idx := (if policy c = ''LRU'' \<or> policy c = ''lru''
           then Set_touch (sets c ! nat idx) tag else sets c ! nat idx)]"
      "miss_conflict c' = miss_conflict c"
  | (miss) tag idx s1 where
      "decompose c addr = Inr (tag, idx)" "0 \<le> idx" "nat idx < length (sets c)"
      "\<not> Set_contains (sets c ! nat idx) tag" "\<not> hit"
      "Set_insert (sets c ! nat idx) tag = Inr s1"
      "sets c' = (sets c)[nat idx := s1]"
      "cls = ''MISS-Conflict'' \<longrightarrow>
         fst (FullyAssocLRU_access (fa_sim c) (block_addr_of c addr))"
      "cls \<noteq> ''MISS-Conflict'' \<longrightarrow> miss_conflict c' = miss_conflict c"
proof -
  from assms obtain tag idx where d: "decompose c addr = Inr (tag, idx)"
    by (auto simp: access_def split: sum.splits)
  from assms d have r: "0 \<le> idx" "nat idx < length (sets c)"
    by (auto simp: access_def Let_def split: if_splits)
  show thesis
  proof (cases "Set_contains (sets c ! nat idx) tag")
    case True
    with assms d r have "hit" "cls = ''HIT''"
      "sets c' = (sets c)[nat idx := (if policy c = ''LRU'' \<or> policy c = ''lru''
           then Set_touch (sets c ! nat idx) tag else sets c ! nat idx)]"
      "miss_conflict c' = miss_conflict c"
      by (auto simp: access_def Let_def split: if_splits prod.splits)
    with d r True show ?thesis by (rule hit)
  next
    case False
    with assms d r obtain s1 where "Set_insert (sets c ! nat idx) tag = Inr s1"
      "sets c' = (sets c)[nat idx := s1]" "\<not> hit"
      "cls = ''MISS-Conflict'' \<longrightarrow>
         fst (FullyAssocLRU_access (fa_sim c) (block_addr_of c addr))"
      "cls \<noteq> ''MISS-Conflict'' \<longrightarrow> miss_conflict c' = miss_conflict c"
      by (auto simp: access_def Let_def split: if_splits prod.splits sum.splits)
    with d r False show ?thesis by (intro miss [of tag idx s1])
  qed
qed

lemma Set_insert_error:
  assumes "Set_insert s t = Inl e"
  shows "e = UB_front_of_empty_list"
  using assms by (auto simp: Set_insert_def split: if_splits list.splits)

lemma access_applies_Set_reference:
  assumes a: "access c addr = Inr (c', hit, cls)" and d: "decompose c addr = Inr (tag, idx)"
    and p: "s_isLRU (sets c ! nat idx) \<longleftrightarrow> (policy c = ''LRU'' \<or> policy c = ''lru'')"
  shows "Set_reference (sets c ! nat idx) tag = Inr (sets c' ! nat idx)"
  using a
proof (cases rule: access_cases)
  case (hit tag' idx')
  with d have e: "tag' = tag" "idx' = idx" by simp_all
  from hit(3,4,7) p show ?thesis
    unfolding e by (simp add: Set_reference_def Set_touch_def)
next
  case (miss tag' idx' s1)
  with d have e: "tag' = tag" "idx' = idx" by simp_all
  from miss(3,4,6,7) show ?thesis
    unfolding e by (simp add: Set_reference_def)
qed

subsection \<open>Construction errors and address bits\<close>

lemma non_divisible_is_reported:
  assumes "bs \<noteq> 0" "bs * u64_of_int a \<noteq> 0" "cs mod (bs * u64_of_int a) \<noteq> 0"
  shows "Cache_ctor rlog2 cs bs a pol ab vb =
         Inl (runtime_error ''cache_size must be divisible by (block_size * assoc)'')"
  using assms by (simp add: Cache_ctor_def Let_def)

lemma zero_assoc_divides_by_zero:
  assumes "bs \<noteq> 0"
  shows "Cache_ctor rlog2 cs bs 0 pol ab vb = Inl UB_divide_by_zero"
  using assms by (simp add: Cache_ctor_def Let_def u64_of_int_def)

text \<open>
  The constructor rejects nothing but a zero block size (by the division) and a cache size
  that is not a multiple of \<^verbatim>\<open>block_size * assoc\<close>: every other geometry whose quotient is
  non-negative as an \<^verbatim>\<open>int\<close> is accepted, whether or not the quotient is a power of two.
\<close>

lemma Cache_ctor_accepts_divisible:
  assumes "bs \<noteq> 0" and "bs * u64_of_int a \<noteq> 0" and "cs mod (bs * u64_of_int a) = 0"
    and "0 \<le> int_of_u64 (cs div (bs * u64_of_int a))"
  shows "\<exists>c. Cache_ctor rlog2 cs bs a pol ab vb = Inr c \<and>
           num_sets c = int_of_u64 (cs div (bs * u64_of_int a)) \<and>
           index_bits c = (if num_sets c > 1 then round_log2 (nat (num_sets c)) else 0) \<and>
           length (sets c) = nat (num_sets c)"
  using assms by (simp add: Cache_ctor_def Let_def)

lemma three_sets_index_out_of_range:
  "access (projr (Cache_ctor log2_exact 192 64 1 ''LRU'' 32 False)) 192 = Inl UB_index_out_of_range"
  by (simp add: eval_defs)

lemma drop_bit_masked_eq:
  fixes addr :: u64
  assumes "n \<le> m" and "drop_bit n addr = drop_bit n (take_bit m addr)"
  shows "take_bit m addr = addr"
proof -
  have "take_bit n (take_bit m addr) = take_bit n addr"
    using assms(1) by (simp add: min_def)
  with assms(2) show ?thesis
    by (metis bits_ident)
qed

subsection \<open>One LRU set mirrors the reference cache\<close>

lemma int_of_size_0: "int_of_size 0 = 0"
  by (simp add: int_of_size_def)

lemma set_mirrors_hit:
  assumes "set_mirrors s fa" and "Set_contains s t"
  shows "set_mirrors (Set_touch s t) (snd (FullyAssocLRU_access fa t))"
  using assms
  by (auto simp: set_mirrors_def Set_contains_def Set_touch_def FullyAssocLRU_access_def)

lemma set_mirrors_miss:
  assumes "set_mirrors s fa" and "\<not> Set_contains s t" and "Set_insert s t = Inr s1"
  shows "set_mirrors s1 (snd (FullyAssocLRU_access fa t)) \<and>
         \<not> fst (FullyAssocLRU_access fa t)"
proof -
  from assms(1) have lru: "s_isLRU s" and o: "fa_order fa = s_order s"
    and p: "fa_pos fa = s_pos s" and c: "fa_capacity fa = s_assoc s" and pos: "0 < s_assoc s"
    by (simp_all add: set_mirrors_def)
  from assms(2) lru have nin: "t \<notin> s_pos s" by (simp add: Set_contains_def)
  show ?thesis
  proof (cases "int_of_size (length (s_order s)) < s_assoc s")
    case True
    with assms(2,3) lru
    have s1: "s1 = s\<lparr>s_order := s_order s @ [t], s_pos := insert t (s_pos s)\<rparr>"
      by (simp add: Set_insert_def)
    from True nin o p c
    have fa: "FullyAssocLRU_access fa t =
        (False, fa\<lparr>fa_order := s_order s @ [t], fa_pos := insert t (s_pos s)\<rparr>)"
      by (simp add: FullyAssocLRU_access_def)
    show ?thesis
      unfolding s1 fa using lru c pos by (simp add: set_mirrors_def)
  next
    case False
    have "s_order s \<noteq> []"
    proof
      assume "s_order s = []"
      with False pos show False by (simp add: int_of_size_0)
    qed
    then obtain ev rest where e: "s_order s = ev # rest"
      by (cases "s_order s") auto
    from False assms(2,3) lru e
    have s1: "s1 = s\<lparr>s_order := rest @ [t], s_pos := insert t (s_pos s - {ev})\<rparr>"
      by (simp add: Set_insert_def)
    from False nin o p c pos e
    have fa: "FullyAssocLRU_access fa t =
        (False, fa\<lparr>fa_order := rest @ [t], fa_pos := insert t (s_pos s - {ev})\<rparr>)"
      by (simp add: FullyAssocLRU_access_def)
    show ?thesis
      unfolding s1 fa using lru c pos by (simp add: set_mirrors_def)
  qed
qed

lemma decompose_single_set:
  assumes "decompose c addr = Inr (tag, idx)" and "num_sets c = 1" and "index_bits c = 0"
  shows "tag = block_addr_of c addr \<and> idx = 0"
  using assms by (auto simp: decompose_def Let_def split: if_splits)

lemma access_mirrors_oracle:
  assumes a: "access c addr = Inr (c', hit, cls)" and m: "mirrors_oracle c"
  shows "mirrors_oracle c' \<and> cls \<noteq> ''MISS-Conflict''"
proof -
  note geo = access_geometry [OF a]
  note fa = access_fa_sim [OF a]
  from m have p: "policy c = ''LRU'' \<or> policy c = ''lru''" and n: "num_sets c = 1"
    and ib: "index_bits c = 0" and len: "length (sets c) = 1"
    and sm: "set_mirrors (sets c ! 0) (fa_sim c)" and mc: "miss_conflict c = 0"
    by (simp_all add: mirrors_oracle_def)
  from a show ?thesis
  proof (cases rule: access_cases)
    case (hit tag idx)
    from decompose_single_set [OF hit(1) n ib]
    have t: "tag = block_addr_of c addr" and i: "idx = 0" by simp_all
    from hit(7) p i len have s: "sets c' ! 0 = Set_touch (sets c ! 0) tag"
      by simp
    have "set_mirrors (sets c' ! 0) (fa_sim c')"
      unfolding s fa t [symmetric]
      using sm hit(4) i by (intro set_mirrors_hit) simp_all
    with geo p n ib len hit(6,8) mc show ?thesis
      by (simp add: mirrors_oracle_def)
  next
    case (miss tag idx s1)
    from decompose_single_set [OF miss(1) n ib]
    have t: "tag = block_addr_of c addr" and i: "idx = 0" by simp_all
    from miss(7) i len have s: "sets c' ! 0 = s1" by simp
    from miss(4,6) i have "\<not> Set_contains (sets c ! 0) tag"
      "Set_insert (sets c ! 0) tag = Inr s1" by simp_all
    from set_mirrors_miss [OF sm this]
    have sm': "set_mirrors s1 (snd (FullyAssocLRU_access (fa_sim c) tag))"
      and nf: "\<not> fst (FullyAssocLRU_access (fa_sim c) tag)" by simp_all
    from nf miss(8) t have cl: "cls \<noteq> ''MISS-Conflict''" by auto
    with miss(9) mc have "miss_conflict c' = 0" by simp
    with sm' geo p n ib len cl show ?thesis
      by (simp add: mirrors_oracle_def s fa t)
  qed
qed

lemma replay_mirrors_oracle:
  assumes "replay c addrs = Inr (c', rs)" and "mirrors_oracle c"
  shows "mirrors_oracle c' \<and> (False, ''MISS-Conflict'') \<notin> set rs"
  using assms
proof (induction addrs arbitrary: c rs)
  case Nil
  then show ?case by simp
next
  case (Cons x xs)
  from Cons.prems(1) obtain c1 hit cls rs1 where
    a: "access c x = Inr (c1, hit, cls)" and b: "replay c1 xs = Inr (c', rs1)"
    and rs: "rs = (hit, cls) # rs1"
    by (auto split: sum.splits prod.splits)
  from access_mirrors_oracle [OF a Cons.prems(2)]
  have m1: "mirrors_oracle c1" and cl: "cls \<noteq> ''MISS-Conflict''" by simp_all
  from Cons.IH [OF b m1] cl rs show ?case by simp
qed

lemma replay_classes:
  assumes "replay c addrs = Inr (c', rs)"
  shows "set rs \<subseteq> {(True, ''HIT''), (False, ''MISS-Compulsory''), (False, ''MISS-Conflict''),
              (False, ''MISS-Capacity'')}"
  using assms
proof (induction addrs arbitrary: c rs)
  case Nil
  then show ?case by simp
next
  case (Cons x xs)
  from Cons.prems(1) obtain c1 r rs1 where
    a: "access c x = Inr (c1, r)" and b: "replay c1 xs = Inr (c', rs1)"
    and rs: "rs = r # rs1"
    by (auto split: sum.splits prod.splits)
  from Cons.IH [OF b] access_classes [OF a] rs show ?case by simp
qed

lemma unat_u64_of_int:
  assumes "0 \<le> a" and "a < 2 ^ 31"
  shows "unat (u64_of_int a) = nat a"
proof -
  have "a < 2 ^ 64"
    using assms(2) by (rule less_trans) simp
  with assms(1) have "take_bit 64 a = a"
    by (simp add: take_bit_int_eq_self)
  then have "uint (word_of_int a :: u64) = a"
    by (simp add: uint_word_of_int take_bit_eq_mod)
  then have "nat (uint (word_of_int a :: u64)) = nat a"
    by (rule arg_cong)
  then show ?thesis
    by (simp only: u64_of_int_def unat_eq_nat_uint)
qed

lemma ucast_eq_1:
  fixes w :: "32 word"
  assumes "sint w = 1"
  shows "w = 1"
proof (rule signed_word_eqI)
  show "sint w = sint (1 :: 32 word)" using assms by simp
qed

lemma single_set_capacity:
  assumes bs: "bs \<noteq> 0" and a: "1 \<le> a" "a < 2 ^ 31"
    and fits: "unat bs * nat a < 2 ^ 64"
    and dv: "cs mod (bs * u64_of_int a) = 0"
    and one: "int_of_u64 (cs div (bs * u64_of_int a)) = 1"
  shows "int_of_u64 (cs div bs) = a"
proof -
  define p where "p = bs * u64_of_int a"
  define q where "q = cs div p"
  have ua: "unat (u64_of_int a) = nat a"
    using a by (intro unat_u64_of_int) simp_all
  have up: "unat p = unat bs * nat a"
    unfolding p_def using fits ua
    by (simp add: unat_mult_lem [THEN iffD1])
  have "unat cs mod unat p = 0"
    using dv unfolding p_def [symmetric]
    by (metis unat_mod unat_0)
  then have cs: "unat cs = unat q * unat p"
    unfolding q_def unat_div using div_mult_mod_eq [of "unat cs" "unat p"] by simp
  have "unat (cs div bs) = unat cs div unat bs"
    by (rule unat_div)
  also have "\<dots> = unat q * nat a"
    using bs unfolding cs up by (simp add: unat_eq_zero)
  finally have d: "unat (cs div bs) = unat q * nat a" .
  have "(ucast (cs div bs) :: 32 word) = word_of_nat (unat (cs div bs))"
    by simp
  also have "\<dots> = word_of_nat (unat q) * word_of_nat (nat a)"
    unfolding d by simp
  also have "(word_of_nat (unat q) :: 32 word) = ucast q"
    by simp
  finally have e: "(ucast (cs div bs) :: 32 word) = ucast q * word_of_nat (nat a)" .
  have "ucast q = (1 :: 32 word)"
    using one unfolding q_def p_def int_of_u64_def by (rule ucast_eq_1)
  with e have "(ucast (cs div bs) :: 32 word) = word_of_nat (nat a)"
    by simp
  then have "int_of_u64 (cs div bs) = int_of_size (nat a)"
    by (simp only: int_of_u64_def int_of_size_def)
  also have "\<dots> = int (nat a)"
  proof (rule int_of_size_small)
    have "int (nat a) < 2 ^ 31" using a by simp
    then show "nat a < 2 ^ 31"
      by (simp only: flip: of_nat_less_iff [where 'a = int]) simp
  qed
  finally show ?thesis using a by simp
qed

text \<open>
  Why \<open>single_set_capacity\<close> asks that \<^verbatim>\<open>block_size * assoc\<close> does not wrap: with
  \<^verbatim>\<open>block_size = 6148914691236517206\<close> and three ways the product wraps to 2, so
  \<^verbatim>\<open>cache_size = 2\<close> is accepted with one set while the reference cache gets capacity
  \<^verbatim>\<open>(int)(2 / block_size) = 0\<close> and never evicts. Four blocks then produce a conflict miss
  under LRU.
\<close>

lemma wrapped_product_counts_a_conflict_miss:
  "num_sets (projr (Cache_ctor log2_exact 2 6148914691236517206 3 ''LRU'' 64 False)) = 1 \<and>
   fa_capacity (fa_sim (projr (Cache_ctor log2_exact 2 6148914691236517206 3 ''LRU'' 64 False))) = 0 \<and>
   map_sum id snd
     (replay (projr (Cache_ctor log2_exact 2 6148914691236517206 3 ''LRU'' 64 False))
        [0, 4611686018427387904, 9223372036854775808, 13835058055282163712, 0]) =
     Inr [(False, ''MISS-Compulsory''), (False, ''MISS-Compulsory''),
          (False, ''MISS-Compulsory''), (False, ''MISS-Compulsory''),
          (False, ''MISS-Conflict'')]"
  by (simp add: eval_defs)

lemmas set_eval_defs =
  Set_reference_def Set_ctor_def Set_contains_def Set_touch_def Set_insert_def int_of_size_def

subsection \<open>Every access returns on a well-formed geometry\<close>

lemma decompose_index_mod:
  assumes ns: "num_sets c = 2 ^ k" and ib: "index_bits c = int k" and k: "k \<le> 31"
    and d: "decompose c addr = Inr (tag, idx)"
  shows "idx = int (unat (block_addr_of c addr) mod 2 ^ k)"
proof (cases "k = 0")
  case True
  with ns d show ?thesis
    by (auto simp: decompose_def Let_def split: if_splits)
next
  case False
  then have "(1::int) < 2 ^ k"
    by (simp add: one_less_power)
  with ns have "num_sets c > 1" by simp
  with d ib have "idx = int_of_u64 (block_addr_of c addr AND (push_bit k 1 - 1))"
    by (auto simp: decompose_def Let_def split: if_splits)
  then show ?thesis by (simp only: int_of_u64_take_bit [OF k])
qed

lemma Cache_ctor_power_of_two:
  assumes ctor: "Cache_ctor rlog2 cs bs a pol ab vb = Inr c" and pw: "num_sets c = 2 ^ k"
  shows "index_bits c = int k" and "k \<le> 31"
proof -
  note f = Cache_ctor_Inr [OF ctor]
  have g: "geometry_ok c" by (rule Cache_ctor_geometry_ok [OF ctor])
  show ib: "index_bits c = int k"
  proof (cases "k = 0")
    case True
    with pw f(7) show ?thesis by simp
  next
    case False
    then have "(1::int) < 2 ^ k" by (simp add: one_less_power)
    with pw have big: "num_sets c > 1" by simp
    have "nat (num_sets c) = 2 ^ k" using pw by (simp add: nat_power_eq)
    with f(7) big show ?thesis by (simp add: round_log2_power)
  qed
  with g show "k \<le> 31" by (simp add: geometry_ok_def)
qed

lemma Set_touch_assoc: "s_assoc (Set_touch s t) = s_assoc s"
  by (simp add: Set_touch_def)

lemma Set_insert_assoc:
  assumes "Set_insert s t = Inr s1"
  shows "s_assoc s1 = s_assoc s"
  using assms
  by (auto simp: Set_insert_def Set_touch_def split: if_splits list.splits)

lemma Set_insert_returns:
  assumes "1 \<le> s_assoc s"
  shows "\<exists>s1. Set_insert s t = Inr s1"
proof (cases "s_order s")
  case Nil
  with assms show ?thesis
    by (simp add: Set_insert_def int_of_size_0)
next
  case (Cons ev rest)
  then show ?thesis
    by (simp add: Set_insert_def)
qed

lemma access_returns:
  assumes w: "runs_safely c k"
  shows "\<exists>c' r. access c addr = Inr (c', r) \<and> runs_safely c' k"
proof -
  from w have ns: "num_sets c = 2 ^ k" and ib: "index_bits c = int k" and k: "k \<le> 31"
    and so: "shift_ok (offset_bits c)" and len: "length (sets c) = 2 ^ k"
    and as: "\<forall>s \<in> set (sets c). 1 \<le> s_assoc s"
    by (simp_all add: runs_safely_def)
  from ib k have "shift_ok (index_bits c)" by (simp add: shift_ok_def)
  with so obtain tag idx where d: "decompose c addr = Inr (tag, idx)"
    by (simp add: decompose_def Let_def)
  have idx: "idx = int (unat (block_addr_of c addr) mod 2 ^ k)"
    by (rule decompose_index_mod [OF ns ib k d])
  have "unat (block_addr_of c addr) mod 2 ^ k < (2::nat) ^ k" by simp
  with idx len have r: "0 \<le> idx" "nat idx < length (sets c)" by simp_all
  then have r': "\<not> (idx < 0 \<or> int (length (sets c)) \<le> idx)" by auto
  from r as have a1: "1 \<le> s_assoc (sets c ! nat idx)" by simp
  obtain fh fa1 where fa: "FullyAssocLRU_access (fa_sim c) (block_addr_of c addr) = (fh, fa1)"
    by (cases "FullyAssocLRU_access (fa_sim c) (block_addr_of c addr)")
  have "\<exists>c' r s1. access c addr = Inr (c', r) \<and> sets c' = (sets c)[nat idx := s1] \<and>
          s_assoc s1 = s_assoc (sets c ! nat idx)"
  proof (cases "Set_contains (sets c ! nat idx) tag")
    case True
    let ?s1 = "if policy c = ''LRU'' \<or> policy c = ''lru''
      then Set_touch (sets c ! nat idx) tag else sets c ! nat idx"
    have "s_assoc ?s1 = s_assoc (sets c ! nat idx)"
      by (simp add: Set_touch_assoc)
    moreover from True d r' fa
    have "\<exists>c' r. access c addr = Inr (c', r) \<and> sets c' = (sets c)[nat idx := ?s1]"
      by (auto simp: access_def Let_def)
    ultimately show ?thesis by blast
  next
    case False
    from Set_insert_returns [OF a1] obtain s1 where
      s1: "Set_insert (sets c ! nat idx) tag = Inr s1" by blast
    with False d r' fa
    have "\<exists>c' r. access c addr = Inr (c', r) \<and> sets c' = (sets c)[nat idx := s1]"
      by (auto simp: access_def Let_def)
    with Set_insert_assoc [OF s1] show ?thesis by blast
  qed
  then obtain c' r s1 where a: "access c addr = Inr (c', r)"
    and s: "sets c' = (sets c)[nat idx := s1]"
    and e: "s_assoc s1 = s_assoc (sets c ! nat idx)" by blast
  have "\<forall>s \<in> set (sets c'). 1 \<le> s_assoc s"
  proof
    fix x assume "x \<in> set (sets c')"
    with s have "x \<in> insert s1 (set (sets c))"
      using set_update_subset_insert by fastforce
    with as a1 e show "1 \<le> s_assoc x" by auto
  qed
  with access_geometry [OF a] ns ib k so len have "runs_safely c' k"
    by (simp add: runs_safely_def)
  with a show ?thesis by blast
qed

lemma replay_returns_from:
  assumes "runs_safely c k"
  shows "\<exists>c' rs. replay c addrs = Inr (c', rs)"
  using assms
proof (induction addrs arbitrary: c)
  case Nil
  show ?case by simp
next
  case (Cons x xs)
  from access_returns [OF Cons.prems] obtain c1 r where
    a: "access c x = Inr (c1, r)" and w: "runs_safely c1 k" by blast
  from Cons.IH [OF w] obtain c' rs where "replay c1 xs = Inr (c', rs)" by blast
  with a show ?case by simp
qed

lemma Cache_ctor_runs_safely:
  assumes ctor: "Cache_ctor rlog2 cs bs a pol ab vb = Inr c" and pw: "num_sets c = 2 ^ k"
    and a: "1 \<le> a" and so: "shift_ok (offset_bits c)"
  shows "runs_safely c k"
proof -
  note f = Cache_ctor_Inr [OF ctor]
  note p = Cache_ctor_power_of_two [OF ctor pw]
  have len: "length (sets c) = 2 ^ k"
    using f(8) pw by (simp add: nat_power_eq)
  have "\<forall>s \<in> set (sets c). 1 \<le> s_assoc s"
    using f(8) a by (simp add: Set_ctor_def)
  with pw p so len show ?thesis by (simp add: runs_safely_def)
qed

text \<open>
  With a power-of-two number of sets, an associativity of at least 1 and an
  \<^verbatim>\<open>offset_bits\<close> in \<open>0..63\<close>, the replay of every trace returns: no access leaves the
  defined behaviour of the language.
\<close>

lemma replay_returns:
  assumes "Cache_ctor rlog2 cs bs a pol ab vb = Inr c" and "num_sets c = 2 ^ k"
    and "1 \<le> a" and "shift_ok (offset_bits c)"
  shows "\<exists>c' rs. replay c addrs = Inr (c', rs)"
  using Cache_ctor_runs_safely [OF assms] by (rule replay_returns_from)


text \<open>
  For an accepted geometry with \<open>2^k\<close> sets and an \<^verbatim>\<open>offset_bits\<close> in \<open>0..63\<close>, in every
  state reached by a replay and for every address, \<^verbatim>\<open>decompose\<close> returns a set index
  that is the block id modulo \<^verbatim>\<open>num_sets\<close>, hence inside the vector of sets, and
  \<^verbatim>\<open>access\<close> does not index the vector out of range.
\<close>

lemma decompose_index_in_range:
  assumes ctor: "Cache_ctor rlog2 cs bs a pol ab vb = Inr c0"
    and pw: "num_sets c0 = 2 ^ k"
    and so: "shift_ok (offset_bits c0)"
    and run: "replay c0 pre = Inr (c, rs)"
  shows "\<exists>tag idx. decompose c addr = Inr (tag, idx) \<and>
           0 \<le> idx \<and> idx < num_sets c \<and> nat idx < length (sets c) \<and>
           idx = int (unat (block_addr_of c addr)) mod num_sets c \<and>
           access c addr \<noteq> Inl UB_index_out_of_range"
proof -
  note f = Cache_ctor_Inr [OF ctor]
  note p = Cache_ctor_power_of_two [OF ctor pw]
  note geo = replay_geometry [OF run]
  have ns: "num_sets c = 2 ^ k" using geo pw by simp
  have ib: "index_bits c = int k" using geo p(1) by simp
  have len: "length (sets c) = nat (num_sets c)"
    using geo f(8) by simp
  from ib p(2) have "shift_ok (index_bits c)" by (simp add: shift_ok_def)
  with so geo obtain tag idx where d: "decompose c addr = Inr (tag, idx)"
    by (simp add: decompose_def Let_def)
  have idx: "idx = int (unat (block_addr_of c addr) mod 2 ^ k)"
    by (rule decompose_index_mod [OF ns ib p(2) d])
  have lt: "unat (block_addr_of c addr) mod 2 ^ k < (2::nat) ^ k" by simp
  have 1: "0 \<le> idx" using idx by simp
  have 2: "idx < num_sets c"
    using idx lt ns by (simp only: flip: of_nat_less_iff [where 'a = int]) simp
  have 3: "nat idx < length (sets c)"
    using 1 2 len by simp
  have 4: "idx = int (unat (block_addr_of c addr)) mod num_sets c"
    using idx ns by (simp add: zmod_int)
  have 5: "access c addr \<noteq> Inl UB_index_out_of_range"
    using d 1 2 len
    by (auto simp: access_def Let_def dest: Set_insert_error
        split: sum.splits prod.splits if_splits)
  from d 1 2 3 4 5 show ?thesis by blast
qed

subsection \<open>The oracle holds the most recently used blocks\<close>

lemma remdups_snoc: "remdups (xs @ [b]) = removeAll b (remdups xs) @ [b]"
  by (induction xs) auto

lemma removeAll_distinct_length:
  "distinct xs \<Longrightarrow> b \<in> set xs \<Longrightarrow> Suc (length (removeAll b xs)) = length xs"
  by (induction xs) auto

lemma take_drop_disjoint:
  assumes "distinct R"
  shows "set (take k R) \<inter> set (drop k R) = {}"
proof -
  from assms have "distinct (take k R @ drop k R)" by simp
  then show ?thesis by (simp only: distinct_append)
qed

lemma drop_removeAll_hit:
  assumes d: "distinct R" and b: "b \<in> set (drop k R)"
  shows "drop k (removeAll b R @ [b]) = remove1 b (drop k R) @ [b]"
proof -
  from b have k: "k < length R" by (cases "k < length R") auto
  from take_drop_disjoint [OF d, of k] b have nb: "b \<notin> set (take k R)" by auto
  have "removeAll b R = removeAll b (take k R @ drop k R)" by simp
  also have "\<dots> = removeAll b (take k R) @ removeAll b (drop k R)"
    by (simp only: removeAll_append)
  also have "removeAll b (take k R) = take k R" using nb by simp
  also have "removeAll b (drop k R) = remove1 b (drop k R)"
    using d by (simp add: distinct_remove1_removeAll)
  finally have "removeAll b R @ [b] = take k R @ (remove1 b (drop k R) @ [b])" by simp
  moreover have "length (take k R) = k" using k by simp
  ultimately show ?thesis by simp
qed

lemma drop_removeAll_evicted:
  assumes d: "distinct R" and b: "b \<in> set R" and nb: "b \<notin> set (drop k R)"
    and k: "k < length R"
  shows "drop k (removeAll b R @ [b]) = tl (drop k R) @ [b]"
proof -
  have "set R = set (take k R) \<union> set (drop k R)"
    by (metis append_take_drop_id set_append)
  with b nb have bt: "b \<in> set (take k R)" by auto
  have "removeAll b R = removeAll b (take k R @ drop k R)" by simp
  also have "\<dots> = removeAll b (take k R) @ removeAll b (drop k R)"
    by (simp only: removeAll_append)
  also have "removeAll b (drop k R) = drop k R" using nb by simp
  finally have e: "removeAll b R @ [b] = removeAll b (take k R) @ (drop k R @ [b])" by simp
  from d have "distinct (take k R)" by simp
  from removeAll_distinct_length [OF this bt] k
  have l: "Suc (length (removeAll b (take k R))) = k" by simp
  from k obtain w ws where w: "drop k R = w # ws"
    by (cases "drop k R") auto
  have "drop k (removeAll b R @ [b]) =
        drop (Suc (length (removeAll b (take k R)))) (removeAll b (take k R) @ (drop k R @ [b]))"
    by (simp only: e l)
  also have "\<dots> = ws @ [b]" by (simp add: w)
  finally show ?thesis by (simp add: w)
qed

lemma spec_lru_contents_facts:
  "distinct (spec_lru_contents n xs)"
  "length (spec_lru_contents n xs) = min n (length (remdups xs))"
  "set (spec_lru_contents n xs) \<subseteq> set xs"
  by (auto simp: spec_lru_contents_def dest: in_set_dropD)

lemma spec_lru_contents_snoc:
  assumes n: "1 \<le> n"
  shows "spec_lru_contents n (xs @ [b]) =
         (if b \<in> set (spec_lru_contents n xs)
          then remove1 b (spec_lru_contents n xs) @ [b]
          else (if n \<le> length (spec_lru_contents n xs)
                then tl (spec_lru_contents n xs) else spec_lru_contents n xs) @ [b])"
proof -
  define R where "R = remdups xs"
  define k where "k = length R - n"
  have d: "distinct R" by (simp add: R_def)
  have W: "spec_lru_contents n xs = drop k R"
    by (simp add: spec_lru_contents_def R_def k_def)
  have R': "remdups (xs @ [b]) = removeAll b R @ [b]"
    by (simp only: remdups_snoc R_def)
  have lW: "length (drop k R) = min n (length R)"
    by (auto simp: k_def)
  show ?thesis
  proof (cases "b \<in> set R")
    case inR: True
    then have len: "length (removeAll b R @ [b]) = length R"
      using removeAll_distinct_length [OF d] by simp
    have S: "spec_lru_contents n (xs @ [b]) = drop k (removeAll b R @ [b])"
      unfolding spec_lru_contents_def R' len k_def ..
    show ?thesis
    proof (cases "b \<in> set (drop k R)")
      case True
      with drop_removeAll_hit [OF d True] show ?thesis
        by (simp add: S W)
    next
      case False
      have "k \<noteq> 0" using False inR by (cases "k = 0") auto
      then have kl: "k < length R" and full: "n \<le> length (drop k R)"
        using n by (auto simp: k_def)
      from drop_removeAll_evicted [OF d inR False kl] False full show ?thesis
        by (simp add: S W)
    qed
  next
    case notR: False
    then have e: "removeAll b R = R" by simp
    from notR have nW: "b \<notin> set (drop k R)" by (auto dest: in_set_dropD)
    have S: "spec_lru_contents n (xs @ [b]) = drop (Suc (length R) - n) (R @ [b])"
      unfolding spec_lru_contents_def R' e by simp
    show ?thesis
    proof (cases "n \<le> length R")
      case True
      with n have "Suc (length R) - n = Suc k" "Suc k \<le> length R"
        by (auto simp: k_def)
      then have "drop (Suc (length R) - n) (R @ [b]) = tl (drop k R) @ [b]"
        by (simp add: drop_Suc tl_drop)
      with True nW lW show ?thesis by (simp add: S W)
    next
      case False
      then have "Suc (length R) - n = 0" "k = 0" by (auto simp: k_def)
      with False nW show ?thesis by (simp add: S W)
    qed
  qed
qed

lemma set_remove1_snoc: "b \<in> set W \<Longrightarrow> set (remove1 b W @ [b]) = set W"
proof (induction W)
  case Nil
  then show ?case by simp
next
  case (Cons w W)
  then show ?case by (cases "b = w") auto
qed

lemma FullyAssocLRU_access_bounded:
  assumes n: "1 \<le> n" "n < 2 ^ 31" and cap: "fa_capacity fa = int n"
    and o: "fa_order fa = spec_lru_contents n blocks" and p: "fa_pos fa = set (fa_order fa)"
  shows "FullyAssocLRU_access fa b =
         (b \<in> set (spec_lru_contents n blocks),
          fa\<lparr>fa_order := spec_lru_contents n (blocks @ [b]),
             fa_pos := set (spec_lru_contents n (blocks @ [b]))\<rparr>)"
proof -
  define W where "W = spec_lru_contents n blocks"
  have dW: "distinct W" and lW: "length W \<le> n"
    using spec_lru_contents_facts(1,2) [of n blocks] by (simp_all add: W_def)
  from lW n have "length W < 2 ^ 31" by simp
  then have sz: "int_of_size (length W) = int (length W)" by (rule int_of_size_small)
  have step: "spec_lru_contents n (blocks @ [b]) =
         (if b \<in> set W then remove1 b W @ [b]
          else (if n \<le> length W then tl W else W) @ [b])"
    using spec_lru_contents_snoc [OF n(1), of blocks b] by (simp only: W_def)
  have oW: "fa_order fa = W" and pW: "fa_pos fa = set W" using o p by (simp_all add: W_def)
  show ?thesis
  proof (cases "b \<in> set W")
    case True
    with oW pW step set_remove1_snoc [OF True] show ?thesis
      by (simp add: FullyAssocLRU_access_def W_def [symmetric] insert_absorb)
  next
    case False
    show ?thesis
    proof (cases "n \<le> length W")
      case full: True
      with n obtain ev rest where W: "W = ev # rest" by (cases W) auto
      with dW have "set W - {ev} = set rest" by auto
      with False full oW pW step cap sz n W show ?thesis
        by (simp add: FullyAssocLRU_access_def W_def [symmetric])
    next
      case notfull: False
      with False oW pW step cap sz show ?thesis
        by (simp add: FullyAssocLRU_access_def W_def [symmetric])
    qed
  qed
qed

lemma FullyAssocLRU_access_unbounded:
  assumes cap: "fa_capacity fa \<le> 0"
    and o: "fa_order fa = remdups blocks" and p: "fa_pos fa = set (fa_order fa)"
  shows "FullyAssocLRU_access fa b =
         (b \<in> set (remdups blocks),
          fa\<lparr>fa_order := remdups (blocks @ [b]), fa_pos := set (remdups (blocks @ [b]))\<rparr>)"
proof (cases "b \<in> set blocks")
  case True
  then have "set (remove1 b (remdups blocks) @ [b]) = set blocks"
    using set_remove1_snoc [of b "remdups blocks"] by simp
  with True cap o p show ?thesis
    by (simp add: FullyAssocLRU_access_def remdups_snoc distinct_remove1_removeAll
        insert_absorb)
next
  case False
  with cap o p show ?thesis
    by (simp add: FullyAssocLRU_access_def remdups_snoc)
qed

lemma FullyAssocLRU_access_tracks:
  assumes "oracle_tracks fa blocks"
  shows "oracle_tracks (snd (FullyAssocLRU_access fa b)) (blocks @ [b])"
    and "fst (FullyAssocLRU_access fa b) \<longleftrightarrow> b \<in> set (fa_order fa)"
proof -
  from assms have o: "fa_order fa = oracle_contents (fa_capacity fa) blocks"
    and p: "fa_pos fa = set (fa_order fa)" and c: "fa_capacity fa < 2 ^ 31"
    by (simp_all add: oracle_tracks_def)
  have "oracle_tracks (snd (FullyAssocLRU_access fa b)) (blocks @ [b]) \<and>
        (fst (FullyAssocLRU_access fa b) \<longleftrightarrow> b \<in> set (fa_order fa))"
  proof (cases "0 < fa_capacity fa")
    case True
    define n where "n = nat (fa_capacity fa)"
    from True have n1: "1 \<le> n" and cap: "fa_capacity fa = int n" by (simp_all add: n_def)
    from c cap have "int n < 2 ^ 31" by simp
    then have n2: "n < 2 ^ 31" by (simp only: flip: of_nat_less_iff [where 'a = int]) simp
    from o True have o': "fa_order fa = spec_lru_contents n blocks"
      by (simp add: oracle_contents_def n_def)
    from FullyAssocLRU_access_bounded [OF n1 n2 cap o' p, of b] True c o' show ?thesis
      by (simp add: oracle_tracks_def oracle_contents_def n_def)
  next
    case False
    then have cap: "fa_capacity fa \<le> 0" by simp
    from o False have o': "fa_order fa = remdups blocks"
      by (simp add: oracle_contents_def)
    from FullyAssocLRU_access_unbounded [OF cap o' p, of b] False c o' show ?thesis
      by (simp add: oracle_tracks_def oracle_contents_def)
  qed
  then show "oracle_tracks (snd (FullyAssocLRU_access fa b)) (blocks @ [b])"
    and "fst (FullyAssocLRU_access fa b) \<longleftrightarrow> b \<in> set (fa_order fa)" by simp_all
qed

lemma replay_oracle_tracks:
  assumes "replay c addrs = Inr (c', rs)" and "oracle_tracks (fa_sim c) blocks"
  shows "oracle_tracks (fa_sim c') (blocks @ map (block_addr_of c) addrs)"
  using assms
proof (induction addrs arbitrary: c rs blocks)
  case Nil
  then show ?case by simp
next
  case (Cons x xs)
  from Cons.prems(1) obtain c1 r rs1 where
    a: "access c x = Inr (c1, r)" and b: "replay c1 xs = Inr (c', rs1)"
    by (auto split: sum.splits prod.splits)
  have e: "block_addr_of c1 = block_addr_of c"
    using access_geometry(1) [OF a] by (rule block_addr_of_cong)
  have "oracle_tracks (fa_sim c1) (blocks @ [block_addr_of c x])"
    unfolding access_fa_sim [OF a] by (rule FullyAssocLRU_access_tracks(1) [OF Cons.prems(2)])
  from Cons.IH [OF b this] show ?case by (simp add: e)
qed

lemma Cache_ctor_oracle_tracks:
  assumes "Cache_ctor rlog2 cs bs a pol ab vb = Inr c"
  shows "oracle_tracks (fa_sim c) []"
  using Cache_ctor_Inr(9) [OF assms] int_of_u64_range [of "cs div bs"]
  by (simp add: oracle_tracks_def oracle_contents_def spec_lru_contents_def
      FullyAssocLRU_ctor_def)

section \<open>Miss classification against the reference cache\<close>

text \<open>
  Claim C1, as stated, fails where \<^verbatim>\<open>cache_size / block_size\<close> does not fit an \<^verbatim>\<open>int\<close>:
  the constructor builds the reference cache with \<^verbatim>\<open>(int)(cs / bs)\<close>. With
  \<^verbatim>\<open>4294967298 1 1\<close> that capacity is 2. On the trace \<open>0, 2, 4, 0\<close> the fourth access is a
  miss on a block referenced before and is classified \<^verbatim>\<open>MISS-Capacity\<close>, although a
  fully-associative LRU cache of capacity \<open>4294967298\<close> still holds block 0 after the first
  three references.
\<close>

theorem truncated_capacity_misclassifies:
  "snd (projr (replay wide_quotient [0, 2, 4, 0])) ! 3 = (False, ''MISS-Capacity'') \<and>
   block_addr_of wide_quotient 0 \<in> block_addr_of wide_quotient ` set [0, 2, 4] \<and>
   block_addr_of wide_quotient 0 \<in>
     set (spec_lru_contents (unat (4294967298 :: u64) div unat (1 :: u64))
            (map (block_addr_of wide_quotient) [0, 2, 4]))"
  by (simp add: eval_defs spec_lru_contents_def)

text \<open>
  Claim C1, amended. Take a simulator built by the constructor, run any trace \<open>pre\<close>
  through it, and let \<open>addr\<close> be the next access. The reference cache has the capacity
  \<^verbatim>\<open>(int)(cache_size / block_size)\<close>. Whenever the quotient lies between 1 and \<open>2^31 - 1\<close>
  it holds exactly what a fully-associative LRU cache of capacity
  \<^verbatim>\<open>cache_size / block_size\<close> holds after the block ids of \<open>pre\<close>; in general it holds the
  LRU window of the truncated capacity (every referenced block when that is not
  positive). Its \<^verbatim>\<open>access(block_id)\<close> reports a hit exactly for the blocks it holds and
  is applied exactly once by the access, on a real hit as well as on a real miss, so
  that afterwards it holds the window for \<open>pre\<close> followed by \<open>addr\<close>. If the access is a
  miss on a block that \<open>pre\<close> has referenced before, it is classified \<^verbatim>\<open>MISS-Conflict\<close>
  if and only if the reference cache holds the block (reports a hit), and
  \<^verbatim>\<open>MISS-Capacity\<close> if and only if it does not.
\<close>

theorem oracle_classification:
  assumes "Cache_ctor rlog2 cs bs a pol ab vb = Inr c0"
    and "replay c0 pre = Inr (c, rs)"
    and "access c addr = Inr (c', hit, cls)"
  shows "fa_capacity (fa_sim c) = int_of_u64 (cs div bs) \<and>
         (0 < unat (cs div bs) \<and> unat (cs div bs) < 2 ^ 31 \<longrightarrow>
            fa_order (fa_sim c) =
              spec_lru_contents (unat cs div unat bs) (map (block_addr_of c0) pre)) \<and>
         fa_order (fa_sim c) =
           oracle_contents (int_of_u64 (cs div bs)) (map (block_addr_of c0) pre) \<and>
         (fst (FullyAssocLRU_access (fa_sim c) (block_addr_of c0 addr)) \<longleftrightarrow>
            block_addr_of c0 addr \<in> set (fa_order (fa_sim c))) \<and>
         fa_sim c' = snd (FullyAssocLRU_access (fa_sim c) (block_addr_of c0 addr)) \<and>
         fa_order (fa_sim c') =
           oracle_contents (int_of_u64 (cs div bs)) (map (block_addr_of c0) (pre @ [addr])) \<and>
         (\<not> hit \<and> block_addr_of c0 addr \<in> block_addr_of c0 ` set pre \<longrightarrow>
            (cls = ''MISS-Conflict'' \<longleftrightarrow>
               block_addr_of c0 addr \<in> set (fa_order (fa_sim c))) \<and>
            (cls = ''MISS-Capacity'' \<longleftrightarrow>
               block_addr_of c0 addr \<notin> set (fa_order (fa_sim c))))"
proof -
  let ?cap = "int_of_u64 (cs div bs)"
  let ?b = "block_addr_of c0 addr"
  have b: "block_addr_of c = block_addr_of c0"
    using replay_geometry [OF assms(2)] by (auto intro: block_addr_of_cong)
  have seen: "seen_blocks c = block_addr_of c0 ` set pre"
    using replay_seen_blocks [OF assms(2)] Cache_ctor_Inr(12) [OF assms(1)] by simp
  have cap: "fa_capacity (fa_sim c) = ?cap"
    using replay_fa_capacity [OF assms(2)] Cache_ctor_Inr(9) [OF assms(1)]
    by (simp add: FullyAssocLRU_ctor_def)
  have t: "oracle_tracks (fa_sim c) (map (block_addr_of c0) pre)"
    using replay_oracle_tracks [OF assms(2) Cache_ctor_oracle_tracks [OF assms(1)]] by simp
  then have o: "fa_order (fa_sim c) = oracle_contents ?cap (map (block_addr_of c0) pre)"
    by (simp add: oracle_tracks_def cap)
  have w: "0 < unat (cs div bs) \<and> unat (cs div bs) < 2 ^ 31 \<longrightarrow>
      fa_order (fa_sim c) =
        spec_lru_contents (unat cs div unat bs) (map (block_addr_of c0) pre)"
  proof
    assume q: "0 < unat (cs div bs) \<and> unat (cs div bs) < 2 ^ 31"
    then have "?cap = int (unat (cs div bs))"
      by (intro int_of_u64_small) simp
    with q o show "fa_order (fa_sim c) =
        spec_lru_contents (unat cs div unat bs) (map (block_addr_of c0) pre)"
      by (simp add: oracle_contents_def unat_div)
  qed
  have h: "fst (FullyAssocLRU_access (fa_sim c) ?b) \<longleftrightarrow> ?b \<in> set (fa_order (fa_sim c))"
    by (rule FullyAssocLRU_access_tracks(2) [OF t])
  have s: "fa_sim c' = snd (FullyAssocLRU_access (fa_sim c) ?b)"
    using access_fa_sim [OF assms(3)] b by simp
  have "oracle_tracks (fa_sim c') (map (block_addr_of c0) pre @ [?b])"
    unfolding s by (rule FullyAssocLRU_access_tracks(1) [OF t])
  moreover have "fa_capacity (fa_sim c') = ?cap"
    unfolding s by (simp add: FullyAssocLRU_access_capacity cap)
  ultimately have o': "fa_order (fa_sim c') =
      oracle_contents ?cap (map (block_addr_of c0) (pre @ [addr]))"
    by (simp add: oracle_tracks_def)
  have m: "\<not> hit \<and> ?b \<in> block_addr_of c0 ` set pre \<longrightarrow>
            (cls = ''MISS-Conflict'' \<longleftrightarrow> ?b \<in> set (fa_order (fa_sim c))) \<and>
            (cls = ''MISS-Capacity'' \<longleftrightarrow> ?b \<notin> set (fa_order (fa_sim c)))"
    using access_miss_class [OF assms(3)] b seen h by simp
  from cap w o h s o' m show ?thesis by blast
qed

text \<open>
  The theorem at the trace \<open>0, 128\<close> followed by the access \<open>0\<close>: blocks 0 and 2 share
  set 0, so the second access to block 0 misses in the real cache while the two-block
  reference cache still holds it.
\<close>

theorem oracle_classification_witness:
  "Cache_ctor log2_exact 128 64 1 ''LRU'' 32 False = Inr two_sets \<and>
   replay two_sets [0, 128] = Inr (projr (replay two_sets [0, 128])) \<and>
   access (two_sets_after [0, 128]) 0 =
     Inr (fst (projr (access (two_sets_after [0, 128]) 0)), False, ''MISS-Conflict'') \<and>
   block_addr_of two_sets 0 \<in> block_addr_of two_sets ` set [0, 128] \<and>
   0 < unat ((128::u64) div 64) \<and> unat ((128::u64) div 64) < 2 ^ 31 \<and>
   fa_order (fa_sim (two_sets_after [0, 128])) =
     spec_lru_contents (unat (128::u64) div unat (64::u64))
       (map (block_addr_of two_sets) [0, 128]) \<and>
   fa_order (fa_sim (two_sets_after [0, 128])) = [0, 2] \<and>
   block_addr_of two_sets 0 \<in> set (fa_order (fa_sim (two_sets_after [0, 128]))) \<and>
   fst (FullyAssocLRU_access (fa_sim (two_sets_after [0, 128])) (block_addr_of two_sets 0))"
proof -
  have r: "replay two_sets [0, 128] = Inr (projr (replay two_sets [0, 128]))"
    by (simp add: eval_defs)
  have h2: "replay two_sets [0, 128] =
      Inr (two_sets_after [0, 128], snd (projr (replay two_sets [0, 128])))"
    unfolding prod.collapse by (rule r)
  have h3: "access (two_sets_after [0, 128]) 0 =
      Inr (fst (projr (access (two_sets_after [0, 128]) 0)), False, ''MISS-Conflict'')"
    by (simp add: eval_defs)
  have m: "block_addr_of two_sets 0 \<in> block_addr_of two_sets ` set [0, 128]"
    by simp
  have q: "0 < unat ((128::u64) div 64) \<and> unat ((128::u64) div 64) < 2 ^ 31"
    by simp
  have v: "fa_order (fa_sim (two_sets_after [0, 128])) = [0, 2]"
    by (simp add: eval_defs)
  show ?thesis
    using oracle_classification [OF two_sets_constructed h2 h3] two_sets_constructed r h3 m q v
    by blast
qed

section \<open>First references\<close>

text \<open>
  Claim C2. In a run of a constructed simulator, an access whose block id differs from
  the block id of every earlier address of the trace is a miss of the real cache and is
  classified \<^verbatim>\<open>MISS-Compulsory\<close>, whatever the reference cache reports.
\<close>

theorem first_reference_is_compulsory:
  assumes "Cache_ctor rlog2 cs bs a pol ab vb = Inr c0"
    and "replay c0 pre = Inr (c, rs)"
    and "block_addr_of c0 addr \<notin> block_addr_of c0 ` set pre"
    and "access c addr = Inr (c', hit, cls)"
  shows "\<not> hit \<and> cls = ''MISS-Compulsory''"
proof -
  have inv: "geometry_ok c" "resident_seen c"
    using replay_invariants [OF assms(2) Cache_ctor_geometry_ok [OF assms(1)]
        Cache_ctor_resident_seen [OF assms(1)]] by simp_all
  have b: "block_addr_of c = block_addr_of c0"
    using replay_geometry [OF assms(2)] by (auto intro: block_addr_of_cong)
  have seen: "seen_blocks c = block_addr_of c0 ` set pre"
    using replay_seen_blocks [OF assms(2)] Cache_ctor_Inr(12) [OF assms(1)] by simp
  with assms(3) b have fresh: "block_addr_of c addr \<notin> seen_blocks c" by simp
  from assms(4) show ?thesis
  proof (rule access_step)
    fix tag idx s1
    assume d: "decompose c addr = Inr (tag, idx)" and i0: "0 \<le> idx"
      and il: "nat idx < length (sets c)"
      and h: "hit \<longleftrightarrow> Set_contains (sets c ! nat idx) tag"
      and cl: "\<not> hit \<Longrightarrow> block_addr_of c addr \<notin> seen_blocks c \<Longrightarrow> cls = ''MISS-Compulsory''"
    have "\<not> hit"
    proof
      assume hit
      with h il inv(2) obtain addr' where s: "block_addr_of c addr' \<in> seen_blocks c"
        and d': "decompose c addr' = Inr (tag, int (nat idx))"
        unfolding resident_seen_def by blast
      from d' i0 have "decompose c addr' = Inr (tag, idx)" by simp
      from decompose_inj [OF inv(1) d this] s fresh show False by simp
    qed
    with cl fresh show ?thesis by simp
  qed
qed

text \<open>
  The theorem after the trace \<open>0, 64\<close> at the access \<open>128\<close>: block 2 is new, and it maps
  to set 0, where block 0 is resident.
\<close>

theorem first_reference_is_compulsory_witness:
  "Cache_ctor log2_exact 128 64 1 ''LRU'' 32 False = Inr two_sets \<and>
   replay two_sets [0, 64] = Inr (projr (replay two_sets [0, 64])) \<and>
   block_addr_of two_sets 128 \<notin> block_addr_of two_sets ` set [0, 64] \<and>
   access (two_sets_after [0, 64]) 128 =
     Inr (fst (projr (access (two_sets_after [0, 64]) 128)), False, ''MISS-Compulsory'')"
proof -
  have r: "replay two_sets [0, 64] = Inr (projr (replay two_sets [0, 64]))"
    by (simp add: eval_defs)
  have h2: "replay two_sets [0, 64] =
      Inr (two_sets_after [0, 64], snd (projr (replay two_sets [0, 64])))"
    unfolding prod.collapse by (rule r)
  have h3: "block_addr_of two_sets 128 \<notin> block_addr_of two_sets ` set [0, 64]"
    by (simp add: eval_defs)
  have h4: "access (two_sets_after [0, 64]) 128 =
      Inr (fst (projr (access (two_sets_after [0, 64]) 128)),
           fst (snd (projr (access (two_sets_after [0, 64]) 128))),
           snd (snd (projr (access (two_sets_after [0, 64]) 128))))"
    by (simp add: eval_defs)
  have "\<not> fst (snd (projr (access (two_sets_after [0, 64]) 128))) \<and>
      snd (snd (projr (access (two_sets_after [0, 64]) 128))) = ''MISS-Compulsory''"
    by (rule first_reference_is_compulsory [OF two_sets_constructed h2 h3 h4])
  with h4 have "access (two_sets_after [0, 64]) 128 =
      Inr (fst (projr (access (two_sets_after [0, 64]) 128)), False, ''MISS-Compulsory'')"
    by (simp only: simp_thms)
  with two_sets_constructed r h3 show ?thesis
    by blast
qed

section \<open>Counters\<close>

text \<open>
  Claim C3. After any trace processed by a constructed simulator (hence after every
  access of it) the counters satisfy \<^verbatim>\<open>hits + misses == accesses\<close> and
  \<^verbatim>\<open>miss_compulsory + miss_conflict + miss_capacity == misses\<close>, as 64-bit unsigned values.
\<close>

theorem counters_balance:
  assumes "Cache_ctor rlog2 cs bs a pol ab vb = Inr c0"
    and "replay c0 addrs = Inr (c, rs)"
  shows "hits c + misses c = accesses c \<and>
         miss_compulsory c + miss_conflict c + miss_capacity c = misses c"
proof -
  have "hits c0 + misses c0 = accesses c0 \<and>
        miss_compulsory c0 + miss_conflict c0 + miss_capacity c0 = misses c0"
    using Cache_ctor_Inr [OF assms(1)] by simp
  with assms(2) show ?thesis by (rule replay_counters)
qed

text \<open>The theorem at the trace \<open>0, 128, 0, 0\<close>: three misses, then a hit.\<close>

theorem counters_balance_witness:
  "Cache_ctor log2_exact 128 64 1 ''LRU'' 32 False = Inr two_sets \<and>
   replay two_sets [0, 128, 0, 0] = Inr (projr (replay two_sets [0, 128, 0, 0])) \<and>
   hits (two_sets_after [0, 128, 0, 0]) = 1 \<and>
   misses (two_sets_after [0, 128, 0, 0]) = 3 \<and>
   accesses (two_sets_after [0, 128, 0, 0]) = 4 \<and>
   hits (two_sets_after [0, 128, 0, 0]) + misses (two_sets_after [0, 128, 0, 0]) =
     accesses (two_sets_after [0, 128, 0, 0]) \<and>
   miss_compulsory (two_sets_after [0, 128, 0, 0]) +
     miss_conflict (two_sets_after [0, 128, 0, 0]) +
     miss_capacity (two_sets_after [0, 128, 0, 0]) =
     misses (two_sets_after [0, 128, 0, 0])"
proof -
  have r: "replay two_sets [0, 128, 0, 0] = Inr (projr (replay two_sets [0, 128, 0, 0]))"
    by (simp add: eval_defs)
  have h2: "replay two_sets [0, 128, 0, 0] =
      Inr (two_sets_after [0, 128, 0, 0], snd (projr (replay two_sets [0, 128, 0, 0])))"
    unfolding prod.collapse by (rule r)
  have v: "hits (two_sets_after [0, 128, 0, 0]) = 1 \<and>
      misses (two_sets_after [0, 128, 0, 0]) = 3 \<and>
      accesses (two_sets_after [0, 128, 0, 0]) = 4"
    by (simp add: eval_defs)
  show ?thesis
    using counters_balance [OF two_sets_constructed h2] two_sets_constructed r v
    by blast
qed

section \<open>One set spanning the whole cache\<close>

text \<open>
  Claim C4, as stated, fails when the replacement policy is FIFO: the reference cache is
  always LRU, so a one-set FIFO cache and the reference cache can hold different lines.
  With \<^verbatim>\<open>cache_size = 128\<close>, \<^verbatim>\<open>block_size = 64\<close>, two ways (one set) and the trace
  \<open>0, 64, 0, 128, 0\<close>, FIFO evicts block 0 on the fourth access while the reference cache
  evicts block 1; the fifth access is counted as a conflict miss.
\<close>

theorem single_fifo_set_counts_a_conflict_miss:
  "num_sets one_set_fifo = 1 \<and>
   miss_conflict (fst (projr (replay one_set_fifo [0, 64, 0, 128, 0]))) = 1 \<and>
   snd (projr (replay one_set_fifo [0, 64, 0, 128, 0])) ! 4 = (False, ''MISS-Conflict'')"
  by (simp add: eval_defs)

text \<open>
  Claim C4, amended. When the constructed simulator has \<^verbatim>\<open>num_sets == 1\<close>, the policy is
  LRU, the associativity is at least 1 and \<^verbatim>\<open>block_size * assoc\<close> does not overflow 64
  bits, then after every trace \<^verbatim>\<open>miss_conflict\<close> is 0, every access is a hit, a compulsory
  miss or a capacity miss, and the single set holds the same lines in the same order as
  the reference cache.
\<close>

theorem single_lru_set_has_no_conflict_misses:
  assumes ctor: "Cache_ctor rlog2 cs bs a pol ab vb = Inr c0"
    and one: "num_sets c0 = 1"
    and lru: "pol = ''LRU'' \<or> pol = ''lru''"
    and a: "1 \<le> a" "a < 2 ^ 31"
    and fits: "unat bs * nat a < 2 ^ 64"
    and run: "replay c0 addrs = Inr (c, rs)"
  shows "miss_conflict c = 0 \<and>
         set rs \<subseteq> {(True, ''HIT''), (False, ''MISS-Compulsory''), (False, ''MISS-Capacity'')} \<and>
         s_order (sets c ! 0) = fa_order (fa_sim c) \<and>
         s_pos (sets c ! 0) = fa_pos (fa_sim c)"
proof -
  note f = Cache_ctor_Inr [OF ctor]
  have "int_of_u64 (cs div (bs * u64_of_int a)) = 1"
    using f(4) one by simp
  with f(1) a fits f(3) have cap: "int_of_u64 (cs div bs) = a"
    by (rule single_set_capacity)
  have "set_mirrors (sets c0 ! 0) (fa_sim c0)"
    using f(8,9) one lru a(1) cap
    by (simp add: set_mirrors_def Set_ctor_def FullyAssocLRU_ctor_def)
  then have "mirrors_oracle c0"
    using f(7,8,10,17) one lru by (simp add: mirrors_oracle_def)
  from replay_mirrors_oracle [OF run this]
  have m: "mirrors_oracle c" and nc: "(False, ''MISS-Conflict'') \<notin> set rs" by simp_all
  from replay_classes [OF run] nc
  have "set rs \<subseteq> {(True, ''HIT''), (False, ''MISS-Compulsory''), (False, ''MISS-Capacity'')}"
    by auto
  with m show ?thesis
    by (simp add: mirrors_oracle_def set_mirrors_def)
qed

text \<open>
  The theorem at \<^verbatim>\<open>128 64 2 LRU\<close> and the trace \<open>0, 64, 128, 0\<close>: the last access is a
  capacity miss.
\<close>

theorem single_lru_set_has_no_conflict_misses_witness:
  "Cache_ctor log2_exact 128 64 2 ''LRU'' 32 False = Inr one_set_lru \<and> num_sets one_set_lru = 1 \<and>
   (1::int) \<le> 2 \<and> (2::int) < 2 ^ 31 \<and> unat (64::u64) * nat 2 < 2 ^ 64 \<and>
   replay one_set_lru [0, 64, 128, 0] = Inr (projr (replay one_set_lru [0, 64, 128, 0])) \<and>
   miss_conflict (fst (projr (replay one_set_lru [0, 64, 128, 0]))) = 0 \<and>
   snd (projr (replay one_set_lru [0, 64, 128, 0])) ! 3 = (False, ''MISS-Capacity'') \<and>
   s_order (sets (fst (projr (replay one_set_lru [0, 64, 128, 0]))) ! 0) =
     fa_order (fa_sim (fst (projr (replay one_set_lru [0, 64, 128, 0]))))"
proof -
  have h1: "Cache_ctor log2_exact 128 64 2 ''LRU'' 32 False = Inr one_set_lru"
    by (simp add: eval_defs)
  have h2: "num_sets one_set_lru = 1" by (simp add: eval_defs)
  have h3: "''LRU'' = ''LRU'' \<or> ''LRU'' = ''lru''" by simp
  have h4: "(1::int) \<le> 2" by simp
  have h5: "(2::int) < 2 ^ 31" by simp
  have h6: "unat (64::u64) * nat 2 < 2 ^ 64" by simp
  have r: "replay one_set_lru [0, 64, 128, 0] = Inr (projr (replay one_set_lru [0, 64, 128, 0]))"
    by (simp add: eval_defs)
  have h7: "replay one_set_lru [0, 64, 128, 0] =
      Inr (fst (projr (replay one_set_lru [0, 64, 128, 0])),
           snd (projr (replay one_set_lru [0, 64, 128, 0])))"
    unfolding prod.collapse by (rule r)
  have v: "snd (projr (replay one_set_lru [0, 64, 128, 0])) ! 3 = (False, ''MISS-Capacity'')"
    by (simp add: eval_defs)
  show ?thesis
    using single_lru_set_has_no_conflict_misses [OF h1 h2 h3 h4 h5 h6 h7] h1 h2 h4 h5 h6 r v
    by blast
qed

section \<open>Rejected geometries\<close>

text \<open>
  Claim C5 at \<^verbatim>\<open>block_size == 0\<close>. The body of the constructor tests \<^verbatim>\<open>block_size == 0\<close>
  and throws \<^verbatim>\<open>runtime_error("block_size must be > 0")\<close>, but the member initialiser
  \<^verbatim>\<open>fa_sim((int)(cs / bs))\<close> runs first and divides by zero. For every cache size,
  associativity and policy the construction ends in that division, not in the
  configuration error. (A \<^verbatim>\<open>cache_size\<close> that is not a multiple of a non-zero
  \<^verbatim>\<open>block_size * assoc\<close> is reported: lemma \<open>non_divisible_is_reported\<close>.)
\<close>

theorem zero_block_size_divides_first:
  "Cache_ctor rlog2 cs 0 a pol ab vb = Inl UB_divide_by_zero \<and>
   Cache_ctor rlog2 cs 0 a pol ab vb \<noteq> Inl (runtime_error ''block_size must be > 0'')"
  by (simp add: Cache_ctor_def)

section \<open>Set counts that are not powers of two\<close>

text \<open>
  Claim C6 at \<^verbatim>\<open>192 64 1\<close>. The constructor checks the block size and the divisibility of
  the cache size, but not that \<^verbatim>\<open>num_sets\<close> is a power of two, although \<^verbatim>\<open>decompose\<close>
  masks the block id with \<^verbatim>\<open>(1 << index_bits) - 1\<close>. The geometry \<^verbatim>\<open>192 64 1\<close> is accepted
  with three sets and \<^verbatim>\<open>index_bits = 2\<close>, no configuration error is raised, and the access
  to address 192 (block 3) then reads \<^verbatim>\<open>sets[3]\<close>, outside the vector of three sets.
\<close>

theorem three_sets_are_accepted:
  "Cache_ctor log2_exact 192 64 1 ''LRU'' 32 False =
     Inr (projr (Cache_ctor log2_exact 192 64 1 ''LRU'' 32 False)) \<and>
   num_sets (projr (Cache_ctor log2_exact 192 64 1 ''LRU'' 32 False)) = 3 \<and>
   index_bits (projr (Cache_ctor log2_exact 192 64 1 ''LRU'' 32 False)) = 2 \<and>
   length (sets (projr (Cache_ctor log2_exact 192 64 1 ''LRU'' 32 False))) = 3 \<and>
   decompose (projr (Cache_ctor log2_exact 192 64 1 ''LRU'' 32 False)) 192 = Inr (0, 3) \<and>
   access (projr (Cache_ctor log2_exact 192 64 1 ''LRU'' 32 False)) 192 =
     Inl UB_index_out_of_range"
  by (simp add: eval_defs)

section \<open>The end-to-end scenario\<close>

text \<open>
  Claim C7, as stated, fails on the trace \<open>0, 64, 128, 0, 64, 128\<close> with
  \<^verbatim>\<open>128 64 1\<close>: the fourth access (the second pass over the evicted address 0) is not
  classified \<^verbatim>\<open>MISS-Conflict\<close>, and the sixth access (the second pass over 128) is not a
  hit.
\<close>

theorem scenario_second_pass_not_conflict:
  "snd (projr (replay two_sets [0, 64, 128, 0, 64, 128])) ! 3 \<noteq> (False, ''MISS-Conflict'') \<and>
   snd (projr (replay two_sets [0, 64, 128, 0, 64, 128])) ! 5 \<noteq> (True, ''HIT'')"
  by (simp add: eval_defs)

text \<open>
  Claim C7, amended. Addresses 0 and 64 map to sets 0 and 1, and 128 maps to set 0 with
  another tag, evicting the line of address 0. The three first-pass accesses are
  compulsory misses. After them the two-block reference cache holds blocks 1 and 2 only,
  so the second pass over address 0 is a miss classified \<^verbatim>\<open>MISS-Capacity\<close>; address 64
  hits; and address 128, whose line was evicted by the second pass over 0, misses again
  as \<^verbatim>\<open>MISS-Capacity\<close>. The outcome is the same under FIFO.
\<close>

theorem scenario_trace_classification:
  "decompose two_sets 0 = Inr (0, 0) \<and>
   decompose two_sets 64 = Inr (0, 1) \<and>
   decompose two_sets 128 = Inr (1, 0) \<and>
   replay two_sets [0, 64, 128, 0, 64, 128] =
     Inr (two_sets_after [0, 64, 128, 0, 64, 128],
          [(False, ''MISS-Compulsory''), (False, ''MISS-Compulsory''),
           (False, ''MISS-Compulsory''), (False, ''MISS-Capacity''),
           (True, ''HIT''), (False, ''MISS-Capacity'')]) \<and>
   fa_order (fa_sim (two_sets_after [0, 64, 128])) = [1, 2] \<and>
   map_sum id snd
     (replay (projr (Cache_ctor log2_exact 128 64 1 ''FIFO'' 32 False)) [0, 64, 128, 0, 64, 128]) =
     Inr [(False, ''MISS-Compulsory''), (False, ''MISS-Compulsory''),
          (False, ''MISS-Compulsory''), (False, ''MISS-Capacity''),
          (True, ''HIT''), (False, ''MISS-Capacity'')]"
  by (simp add: eval_defs)

section \<open>Replacement order in one set\<close>

text \<open>
  Claim C8, as stated, fails in a 2-way set: three distinct tags do not fit, so the
  reference to the third tag already evicts the first, and the second reference to the
  first tag is a miss that evicts the second. With the tags 1, 2, 3: under LRU tag 2 is
  no longer resident after \<open>1, 2, 3, 1\<close> (the next miss cannot evict it), and under FIFO
  tag 1 is still resident after the next miss (tag 4).
\<close>

theorem two_way_set_after_three_tags:
  "\<not> Set_contains (projr (Set_reference_all (Set_ctor 2 True) [1, 2, 3, 1])) 2 \<and>
   Set_contains (projr (Set_reference_all (Set_ctor 2 False) [1, 2, 3, 1, 4])) 1"
  by (simp add: set_eval_defs)

text \<open>
  Claim C8, amended. For pairwise distinct tags \<open>A\<close>, \<open>B\<close>, \<open>C\<close> and a further tag \<open>D\<close>:
  in a 2-way set the references \<open>A, B, C, A\<close> leave \<open>C, A\<close> (oldest first) under LRU and
  under FIFO alike, and the next miss evicts \<open>C\<close>. In a 3-way set, where the three tags
  fit, the same references leave \<open>B, C, A\<close> under LRU (\<open>A\<close> refreshed to newest) and the
  next miss evicts \<open>B\<close>; under FIFO they leave \<open>A, B, C\<close> (the hit does not reorder) and
  the next miss evicts \<open>A\<close>.
\<close>

theorem replacement_order:
  assumes "distinct [A, B, C, D]"
  shows "Set_reference_all (Set_ctor 2 True) [A, B, C, A] =
           Inr \<lparr>s_assoc = 2, s_isLRU = True, s_order = [C, A], s_pos = {C, A}, s_present = {}\<rparr> \<and>
         Set_reference_all (Set_ctor 2 True) [A, B, C, A, D] =
           Inr \<lparr>s_assoc = 2, s_isLRU = True, s_order = [A, D], s_pos = {A, D}, s_present = {}\<rparr> \<and>
         Set_reference_all (Set_ctor 2 False) [A, B, C, A] =
           Inr \<lparr>s_assoc = 2, s_isLRU = False, s_order = [C, A], s_pos = {}, s_present = {C, A}\<rparr> \<and>
         Set_reference_all (Set_ctor 2 False) [A, B, C, A, D] =
           Inr \<lparr>s_assoc = 2, s_isLRU = False, s_order = [A, D], s_pos = {}, s_present = {A, D}\<rparr> \<and>
         Set_reference_all (Set_ctor 3 True) [A, B, C, A] =
           Inr \<lparr>s_assoc = 3, s_isLRU = True, s_order = [B, C, A], s_pos = {A, B, C},
                 s_present = {}\<rparr> \<and>
         Set_reference_all (Set_ctor 3 True) [A, B, C, A, D] =
           Inr \<lparr>s_assoc = 3, s_isLRU = True, s_order = [C, A, D], s_pos = {A, C, D},
                 s_present = {}\<rparr> \<and>
         Set_reference_all (Set_ctor 3 False) [A, B, C, A] =
           Inr \<lparr>s_assoc = 3, s_isLRU = False, s_order = [A, B, C], s_pos = {},
                 s_present = {A, B, C}\<rparr> \<and>
         Set_reference_all (Set_ctor 3 False) [A, B, C, A, D] =
           Inr \<lparr>s_assoc = 3, s_isLRU = False, s_order = [B, C, D], s_pos = {},
                 s_present = {B, C, D}\<rparr>"
proof -
  from assms have ne: "A \<noteq> B" "A \<noteq> C" "A \<noteq> D" "B \<noteq> C" "B \<noteq> D" "C \<noteq> D"
    "B \<noteq> A" "C \<noteq> A" "D \<noteq> A" "C \<noteq> B" "D \<noteq> B" "D \<noteq> C"
    by auto
  have 1: "Set_reference_all (Set_ctor 2 True) [A, B, C, A] =
           Inr \<lparr>s_assoc = 2, s_isLRU = True, s_order = [C, A], s_pos = {C, A}, s_present = {}\<rparr>"
    using ne by (auto simp: set_eval_defs)
  have 2: "Set_reference_all (Set_ctor 2 True) [A, B, C, A, D] =
           Inr \<lparr>s_assoc = 2, s_isLRU = True, s_order = [A, D], s_pos = {A, D}, s_present = {}\<rparr>"
    using ne by (auto simp: set_eval_defs)
  have 3: "Set_reference_all (Set_ctor 2 False) [A, B, C, A] =
           Inr \<lparr>s_assoc = 2, s_isLRU = False, s_order = [C, A], s_pos = {}, s_present = {C, A}\<rparr>"
    using ne by (auto simp: set_eval_defs)
  have 4: "Set_reference_all (Set_ctor 2 False) [A, B, C, A, D] =
           Inr \<lparr>s_assoc = 2, s_isLRU = False, s_order = [A, D], s_pos = {}, s_present = {A, D}\<rparr>"
    using ne by (auto simp: set_eval_defs)
  have 5: "Set_reference_all (Set_ctor 3 True) [A, B, C, A] =
           Inr \<lparr>s_assoc = 3, s_isLRU = True, s_order = [B, C, A], s_pos = {A, B, C},
                 s_present = {}\<rparr>"
    using ne by (auto simp: set_eval_defs)
  have 6: "Set_reference_all (Set_ctor 3 True) [A, B, C, A, D] =
           Inr \<lparr>s_assoc = 3, s_isLRU = True, s_order = [C, A, D], s_pos = {A, C, D},
                 s_present = {}\<rparr>"
    using ne by (auto simp: set_eval_defs)
  have 7: "Set_reference_all (Set_ctor 3 False) [A, B, C, A] =
           Inr \<lparr>s_assoc = 3, s_isLRU = False, s_order = [A, B, C], s_pos = {},
                 s_present = {A, B, C}\<rparr>"
    using ne by (auto simp: set_eval_defs)
  have 8: "Set_reference_all (Set_ctor 3 False) [A, B, C, A, D] =
           Inr \<lparr>s_assoc = 3, s_isLRU = False, s_order = [B, C, D], s_pos = {},
                 s_present = {B, C, D}\<rparr>"
    using ne by (auto simp: set_eval_defs)
  from 1 2 3 4 5 6 7 8 show ?thesis by blast
qed

text \<open>The theorem at the tags 1, 2, 3 and 4.\<close>

theorem replacement_order_witness:
  "distinct [1, 2, 3, 4 :: u64] \<and>
   Set_reference_all (Set_ctor 2 True) [1, 2, 3, 1, 4] =
     Inr \<lparr>s_assoc = 2, s_isLRU = True, s_order = [1, 4], s_pos = {1, 4}, s_present = {}\<rparr> \<and>
   Set_reference_all (Set_ctor 3 True) [1, 2, 3, 1, 4] =
     Inr \<lparr>s_assoc = 3, s_isLRU = True, s_order = [3, 1, 4], s_pos = {1, 3, 4},
           s_present = {}\<rparr> \<and>
   Set_reference_all (Set_ctor 3 False) [1, 2, 3, 1, 4] =
     Inr \<lparr>s_assoc = 3, s_isLRU = False, s_order = [2, 3, 4], s_pos = {},
           s_present = {2, 3, 4}\<rparr>"
proof -
  have h: "distinct [1, 2, 3, 4 :: u64]" by simp
  show ?thesis
    using replacement_order [OF h] h by blast
qed

section \<open>Addresses wider than the configured width\<close>

text \<open>
  Claim C9, as stated, fails: \<^verbatim>\<open>decompose\<close> never uses \<^verbatim>\<open>addr_bits\<close>. With
  \<^verbatim>\<open>128 64 1 LRU 32\<close> the address \<open>2^32\<close> and the same address masked to 32 bits (which is
  0) get different tags.
\<close>

theorem upper_address_bits_are_kept:
  "decompose two_sets 4294967296 \<noteq> decompose two_sets (take_bit 32 4294967296)"
  by (simp add: eval_defs)

text \<open>
  Claim C9, amended. \<^verbatim>\<open>decompose\<close> applies no truncation to the configured width: it
  shifts and masks the full 64-bit address. For a constructed simulator whose
  \<^verbatim>\<open>offset_bits\<close> (whatever libm returned for the block size) lies between 0 and
  \<^verbatim>\<open>addr_bits\<close>, the result of \<^verbatim>\<open>decompose\<close> (tag and set index) equals that of the
  address masked to \<^verbatim>\<open>addr_bits\<close> bits if and only if the address is already
  representable in \<^verbatim>\<open>addr_bits\<close> bits, and the same holds for the block id; for every
  wider address both differ.
\<close>

theorem decompose_uses_every_address_bit:
  assumes "Cache_ctor rlog2 cs bs a pol ab vb = Inr c"
    and "offset_bits c \<le> ab" and ob: "0 \<le> offset_bits c"
  shows "(decompose c addr = decompose c (take_bit (nat ab) addr) \<longleftrightarrow>
            take_bit (nat ab) addr = addr) \<and>
         (block_addr_of c addr = block_addr_of c (take_bit (nat ab) addr) \<longleftrightarrow>
            take_bit (nat ab) addr = addr)"
proof -
  note f = Cache_ctor_Inr [OF assms(1)]
  have g: "geometry_ok c" by (rule Cache_ctor_geometry_ok [OF assms(1)])
  with assms(2) have le: "nat (offset_bits c) \<le> nat ab" by simp
  have blk: "take_bit (nat ab) addr = addr"
    if "block_addr_of c addr = block_addr_of c (take_bit (nat ab) addr)"
    using that le unfolding block_addr_of_def by (rule drop_bit_masked_eq [rotated])
  have dec: "take_bit (nat ab) addr = addr"
    if e: "decompose c addr = decompose c (take_bit (nat ab) addr)"
  proof (cases "shift_ok (offset_bits c)")
    case True
    moreover have "shift_ok (index_bits c)"
      using g by (simp add: geometry_ok_def shift_ok_def)
    ultimately obtain t i where d1: "decompose c addr = Inr (t, i)"
      by (simp add: decompose_def Let_def)
    with e have d2: "decompose c (take_bit (nat ab) addr) = Inr (t, i)"
      by simp
    have "block_addr_of c addr = block_addr_of c (take_bit (nat ab) addr)"
      by (rule decompose_inj [OF g d1 d2])
    then show ?thesis by (rule blk)
  next
    case False
    with ob assms(2) have "64 \<le> nat ab" by (simp add: shift_ok_def)
    then show ?thesis by (simp add: take_bit_word_eq_self)
  qed
  show ?thesis using blk dec by auto
qed

text \<open>The theorem at the address \<open>2^32 + 64\<close>, which does not fit in 32 bits.\<close>

theorem decompose_uses_every_address_bit_witness:
  "Cache_ctor log2_exact 128 64 1 ''LRU'' 32 False = Inr two_sets \<and> offset_bits two_sets \<le> 32 \<and>
   0 \<le> offset_bits two_sets \<and>
   take_bit (nat 32) (4294967360 :: u64) \<noteq> 4294967360 \<and>
   decompose two_sets 4294967360 \<noteq> decompose two_sets (take_bit (nat 32) 4294967360) \<and>
   block_addr_of two_sets 4294967360 \<noteq> block_addr_of two_sets (take_bit (nat 32) 4294967360)"
proof -
  have h2: "offset_bits two_sets \<le> 32" by (simp add: eval_defs)
  have h3: "0 \<le> offset_bits two_sets" by (simp add: eval_defs)
  have v: "take_bit (nat 32) (4294967360 :: u64) \<noteq> 4294967360" by simp
  show ?thesis
    using decompose_uses_every_address_bit [OF two_sets_constructed h2 h3, of 4294967360]
      two_sets_constructed h2 h3 v
    by blast
qed

section \<open>The set index stays inside the vector of sets\<close>


end
